theory Spec2Isabelle
  imports Main "HOL-Library.Word"
begin

section \<open>Control codes and character classification\<close>

text \<open>
  The filters are instantiated at \<open>CharT = char\<close>; a character is one byte.
  \<open>enum ControlCodes { EndOfLine = 0xa, Indent = 0xf, Undent = 0xe }\<close> and the
  three members of \<open>control_codes<char>\<close>.
\<close>

definition EndOfLine :: char where
  "EndOfLine = CHR 0x0A"

definition end_of_line :: char where
  "end_of_line = EndOfLine"

definition indent_code :: char where
  "indent_code = CHR 0x0F"

definition undent_code :: char where
  "undent_code = CHR 0x0E"

text \<open>
  \<open>std::isspace(c, locale)\<close> with the member \<open>std::locale locale{}\<close>, a copy of the
  global locale, which is the classic "C" locale unless the program replaces it (this
  repository never does): space, and the five controls from horizontal tab to carriage
  return.
\<close>

definition isspace :: "char \<Rightarrow> bool" where
  "isspace c = (c = CHR 0x20 \<or> c = CHR 0x09 \<or> c = CHR 0x0A \<or> c = CHR 0x0B
                \<or> c = CHR 0x0C \<or> c = CHR 0x0D)"

section \<open>The sink\<close>

text \<open>
  The next buffer in the chain is a \<open>std::basic_streambuf\<close> that the filters only drive
  through \<open>sputn\<close> and \<open>sputc\<close>. Its state is the bytes it has taken so far; how many
  bytes it takes at its \<open>i\<close>-th call is given by \<open>room\<close> (\<open>None\<close>: everything that is
  offered), so that every pattern of short counts and refusals is a sink.
\<close>

record sink =
  delivered :: string
  room :: "nat \<Rightarrow> nat option"
  calls :: nat

definition sputn :: "sink \<Rightarrow> string \<Rightarrow> sink \<times> nat" where
  "sputn s bs =
     (let n = (case room s (calls s) of None \<Rightarrow> length bs | Some k \<Rightarrow> min k (length bs))
      in (s\<lparr>delivered := delivered s @ take n bs, calls := Suc (calls s)\<rparr>, n))"

text \<open>\<open>sputc\<close> offers one byte; \<open>False\<close> stands for \<open>traits_type::eof()\<close>.\<close>

definition sputc :: "sink \<Rightarrow> char \<Rightarrow> sink \<times> bool" where
  "sputc s c = (let (s', n) = sputn s [c] in (s', n = 1))"

text \<open>The sink that takes everything, and the sink that takes \<open>k\<close> bytes per call.\<close>

definition accept_all :: sink where
  "accept_all = \<lparr>delivered = [], room = (\<lambda>i. None), calls = 0\<rparr>"

definition accept_only :: "nat \<Rightarrow> sink" where
  "accept_only k = \<lparr>delivered = [], room = (\<lambda>i. Some k), calls = 0\<rparr>"

section \<open>The indent filter writing straight to the sink (code_fmt_stream.h)\<close>

text \<open>
  The fields of \<open>basic_fmtstreambuf\<close>; \<open>size_t\<close> is 64 bits wide. The two variants of
  the class share the first three fields and the operations \<open>indent\<close> and \<open>undent\<close>; the
  direct variant adds its own pointer \<open>next\<close> and \<open>pending_indent\<close>. A pointer to a
  stream buffer is an address or null (\<open>None\<close>). The operations below take the state of
  the buffer that \<open>next\<close> points to as their argument \<open>s\<close> and return it updated.
\<close>

record fmt_fields =
  indent_increment :: "64 word"
  at_start_of_line :: bool
  indent_level :: "64 word"

record fmtstreambuf = fmt_fields +
  next_buf :: "nat option"
  pending_indent :: "64 word"

definition indent :: "'a fmt_fields_scheme \<Rightarrow> 'a fmt_fields_scheme" where
  "indent st = st\<lparr>indent_level := indent_level st + 1\<rparr>"

definition undent :: "'a fmt_fields_scheme \<Rightarrow> 'a fmt_fields_scheme" where
  "undent st = (if indent_level st \<noteq> 0 then st\<lparr>indent_level := indent_level st - 1\<rparr> else st)"

text \<open>
  \<open>static char_type spaces[] = "                "\<close>: sixteen spaces and the terminating
  zero of the string literal, so \<open>sizeof(spaces)\<close> is 17.
\<close>

definition spaces :: string where
  "spaces = replicate 16 (CHR 0x20) @ [CHR 0x00]"

definition spaces_count :: "64 word" where
  "spaces_count = 17"

text \<open>
  The loop of \<open>do_indentation\<close> on the running value of \<open>pending_indent\<close>: the result is
  the final \<open>pending_indent\<close>, the sink and the value returned.
\<close>

function do_indentation_loop :: "64 word \<Rightarrow> sink \<Rightarrow> 64 word \<times> sink \<times> 64 word" where
  "do_indentation_loop p s =
     (if 0 < p then
        (let m = min p spaces_count;
             (s', n) = sputn s (take (unat m) spaces)
         in if n \<noteq> unat m then (p, s', p)
            else do_indentation_loop (p - m) s')
      else (p, s, 0))"
  by pat_completeness auto
termination
proof (relation "measure (\<lambda>(p, s). unat p)")
  show "wf (measure (\<lambda>(p, s). unat p))" by simp
next
  fix p :: "64 word" and s :: sink and m x xa y
  assume p: "0 < p" and m: "m = min p spaces_count"
  have m0: "0 < m" using p m by (simp add: spaces_count_def min_def)
  have mp: "m \<le> p" using m by simp
  have "unat (p - m) = unat p - unat m"
    using mp by (simp add: unat_sub)
  moreover have "0 < unat m" using m0 by (simp add: word_less_nat_alt)
  moreover have "unat m \<le> unat p" using mp by (simp add: word_le_nat_alt)
  ultimately show "((p - m, xa), (p, s)) \<in> measure (\<lambda>(p, s). unat p)"
    by simp
qed

definition do_indentation ::
  "fmtstreambuf \<Rightarrow> sink \<Rightarrow> 64 word \<Rightarrow> fmtstreambuf \<times> sink \<times> 64 word" where
  "do_indentation st s indentation_count =
     (let (p, s', r) = do_indentation_loop indentation_count s
      in (st\<lparr>pending_indent := p\<rparr>, s', r))"

text \<open>
  The bytes \<open>do_indentation\<close> offers to the sink, chunk after chunk, for a count \<open>p\<close>
  when no call is cut short: the same loop with the sink left out.
\<close>

function indent_bytes :: "64 word \<Rightarrow> string" where
  "indent_bytes p =
     (if 0 < p then
        (let m = min p spaces_count
         in take (unat m) spaces @ indent_bytes (p - m))
      else [])"
  by pat_completeness auto
termination
proof (relation "measure unat")
  show "wf (measure (unat :: 64 word \<Rightarrow> nat))" by simp
next
  fix p m :: "64 word"
  assume p: "0 < p" and m: "m = min p spaces_count"
  have m0: "0 < m" using p m by (simp add: spaces_count_def min_def)
  have mp: "m \<le> p" using m by simp
  have "unat (p - m) = unat p - unat m"
    using mp by (simp add: unat_sub)
  moreover have "0 < unat m" using m0 by (simp add: word_less_nat_alt)
  moreover have "unat m \<le> unat p" using mp by (simp add: word_le_nat_alt)
  ultimately show "(p - m, p) \<in> measure unat"
    by simp
qed

text \<open>
  The loop of \<open>xsputn\<close> over \<open>obuf[idx..count)\<close> (the argument is written \<open>buf\<close>
  here); the list is the part of the buffer not yet looked at and \<open>idx\<close> the index of
  its first byte. The result is the filter, the
  sink and the value returned.
\<close>

fun xsputn_loop :: "fmtstreambuf \<Rightarrow> sink \<Rightarrow> string \<Rightarrow> nat \<Rightarrow> fmtstreambuf \<times> sink \<times> nat" where
  "xsputn_loop st s [] idx = (st, s, idx)"
| "xsputn_loop st s (c # cs) idx =
     (if c = indent_code then xsputn_loop (indent st) s cs (Suc idx)
      else if c = undent_code then xsputn_loop (undent st) s cs (Suc idx)
      else if at_start_of_line st \<and> isspace c then xsputn_loop st s cs (Suc idx)
      else
        (let (st1, s1, r) =
               (if at_start_of_line st
                then do_indentation st s (indent_level st * indent_increment st)
                else (st, s, 0))
         in if r \<noteq> 0 then (st1, s1, idx)
            else
              (let st2 = st1\<lparr>at_start_of_line := (c = EndOfLine)\<rparr>;
                   (s2, n) = sputn s1 [c]
               in if n \<noteq> 1 then (st2, s2, idx)
                  else xsputn_loop st2 s2 cs (Suc idx))))"

definition xsputn :: "fmtstreambuf \<Rightarrow> sink \<Rightarrow> string \<Rightarrow> fmtstreambuf \<times> sink \<times> nat" where
  "xsputn st s buf =
     (if 0 < pending_indent st then
        (let (st1, s1, r) = do_indentation st s (pending_indent st)
         in if r \<noteq> 0 then (st1, s1, 0) else xsputn_loop st1 s1 buf 0)
      else xsputn_loop st s buf 0)"

text \<open>\<open>xsgetn\<close> touches neither its buffer nor the sink.\<close>

definition xsgetn ::
  "fmtstreambuf \<Rightarrow> sink \<Rightarrow> string \<Rightarrow> int \<Rightarrow> fmtstreambuf \<times> sink \<times> string \<times> int" where
  "xsgetn st s ibuf count = (st, s, ibuf, count)"

text \<open>
  The constructor stores the pointer it is given; the other members take their
  initialisers. It has no failing path.
\<close>

datatype construction_error = InvalidSink

definition basic_fmtstreambuf :: "nat option \<Rightarrow> construction_error + fmtstreambuf" where
  "basic_fmtstreambuf nxt =
     Inr \<lparr>indent_increment = 4, at_start_of_line = True, indent_level = 0,
          next_buf = nxt, pending_indent = 0\<rparr>"

text \<open>A new filter on a buffer at address 0.\<close>

definition fresh :: fmtstreambuf where
  "fresh = \<lparr>indent_increment = 4, at_start_of_line = True, indent_level = 0,
            next_buf = Some 0, pending_indent = 0\<rparr>"

subsection \<open>The string builders\<close>

definition basic_begin :: "char \<Rightarrow> string" where
  "basic_begin open_brace = [open_brace, indent_code, end_of_line]"

definition basic_end :: "char \<Rightarrow> string" where
  "basic_end close_brace = [undent_code, end_of_line, close_brace, end_of_line]"

definition basic_sft_end :: "char \<Rightarrow> string" where
  "basic_sft_end close_brace = [undent_code, end_of_line, close_brace]"

section \<open>The chaining filter buffer (basic_filter_streambuf)\<close>

text \<open>
  \<open>obuf\<close> is the array of \<open>write_buffer_size\<close> characters, so \<open>sizeof(obuf)\<close> is its
  length; \<open>pptr\<close> is the offset \<open>pptr() - obuf\<close> of the put pointer. The constructor
  leaves the array as the storage \<open>mem\<close> holds it and the put area empty.
\<close>

record filter_streambuf =
  next_sink :: "nat option"
  obuf :: string
  pptr :: nat

definition basic_filter_streambuf ::
  "nat option \<Rightarrow> string \<Rightarrow> construction_error + filter_streambuf" where
  "basic_filter_streambuf nxt mem = Inr \<lparr>next_sink = nxt, obuf = mem, pptr = 0\<rparr>"

text \<open>The pass-through \<open>filter_write\<close> of the base class; it has no state of its own.\<close>

definition filter_write_default :: "unit \<Rightarrow> sink \<Rightarrow> string \<Rightarrow> unit \<times> sink \<times> int" where
  "filter_write_default u s bs = (let (s', n) = sputn s bs in (u, s', int n))"

text \<open>
  The copy loop of \<open>sync\<close>:
  \<open>for (cp = n; cp < sizeof(obuf) - n; ++cp) obuf[cp - n] = obuf[cp]\<close>.
\<close>

function shift_loop :: "nat \<Rightarrow> nat \<Rightarrow> nat \<Rightarrow> string \<Rightarrow> string" where
  "shift_loop n bound cp buf =
     (if cp < bound then shift_loop n bound (Suc cp) (buf[cp - n := buf ! cp]) else buf)"
  by pat_completeness auto
termination
  by (relation "measure (\<lambda>(n, bound, cp, buf). bound - cp)") auto

text \<open>
  \<open>sync\<close>, with the virtual \<open>filter_write\<close> and the state \<open>d\<close> of the class that
  overrides it as parameters. The result is \<open>None\<close> where the hook reports more than
  \<open>sizeof(obuf)\<close> bytes: there the unsigned difference \<open>sizeof(obuf) - n\<close> wraps around
  and the loop reads past the array.
\<close>

definition sync ::
  "('d \<Rightarrow> sink \<Rightarrow> string \<Rightarrow> 'd \<times> sink \<times> int) \<Rightarrow> 'd \<Rightarrow> filter_streambuf \<Rightarrow> sink
     \<Rightarrow> ('d \<times> filter_streambuf \<times> sink \<times> int) option" where
  "sync filter_write d b s =
     (let (d', s', n) = filter_write d s (take (pptr b) (obuf b))
      in if n < 0 then Some (d', b, s', - 1)
         else if n = int (pptr b) then Some (d', b\<lparr>pptr := 0\<rparr>, s', 0)
         else if int (length (obuf b)) < n then None
         else Some (d',
                b\<lparr>obuf := shift_loop (nat n) (length (obuf b) - nat n) (nat n) (obuf b),
                  pptr := length (obuf b) - nat n\<rparr>,
                s', 0))"

text \<open>The bytes waiting in the put area.\<close>

definition waiting :: "filter_streambuf \<Rightarrow> string" where
  "waiting b = take (pptr b) (obuf b)"

section \<open>The indent filter on the chaining buffer\<close>

text \<open>
  This variant of \<open>basic_fmtstreambuf\<close> derives from \<open>basic_filter_streambuf\<close> and
  overrides \<open>filter_write\<close>; its own members are the three of \<open>fmt_fields\<close>.
\<close>

definition basic_fmtstreambuf_chained ::
  "nat option \<Rightarrow> string \<Rightarrow> construction_error + (filter_streambuf \<times> fmt_fields)" where
  "basic_fmtstreambuf_chained nxt mem =
     (case basic_filter_streambuf nxt mem of
        Inl e \<Rightarrow> Inl e
      | Inr b \<Rightarrow>
          Inr (b, \<lparr>indent_increment = 4, at_start_of_line = True, indent_level = 0\<rparr>))"

text \<open>
  \<open>for (ind = 0; ind < indent_level * indent_increment; ++ind)
  if (next->sputc(' ') == eof) return idx\<close>: the number of rounds left, and whether
  every \<open>sputc\<close> succeeded.
\<close>

fun put_spaces :: "nat \<Rightarrow> sink \<Rightarrow> sink \<times> bool" where
  "put_spaces 0 s = (s, True)"
| "put_spaces (Suc k) s =
     (let (s', ok) = sputc s (CHR 0x20)
      in if ok then put_spaces k s' else (s', False))"

fun filter_write_loop :: "fmt_fields \<Rightarrow> sink \<Rightarrow> string \<Rightarrow> nat \<Rightarrow> fmt_fields \<times> sink \<times> nat" where
  "filter_write_loop st s [] idx = (st, s, idx)"
| "filter_write_loop st s (c # cs) idx =
     (if c = indent_code then filter_write_loop (indent st) s cs (Suc idx)
      else if c = undent_code then filter_write_loop (undent st) s cs (Suc idx)
      else if at_start_of_line st \<and> isspace c then filter_write_loop st s cs (Suc idx)
      else
        (let (s1, ok) =
               (if at_start_of_line st
                then put_spaces (unat (indent_level st * indent_increment st)) s
                else (s, True))
         in if \<not> ok then (st, s1, idx)
            else
              (let st2 = st\<lparr>at_start_of_line := (c = EndOfLine)\<rparr>;
                   (s2, ok2) = sputc s1 c
               in if \<not> ok2 then (st2, s2, idx)
                  else filter_write_loop st2 s2 cs (Suc idx))))"

definition filter_write :: "fmt_fields \<Rightarrow> sink \<Rightarrow> string \<Rightarrow> fmt_fields \<times> sink \<times> nat" where
  "filter_write st s buf = filter_write_loop st s buf 0"

definition filter_read ::
  "fmt_fields \<Rightarrow> sink \<Rightarrow> string \<Rightarrow> int \<Rightarrow> fmt_fields \<times> sink \<times> string \<times> int" where
  "filter_read st s ibuf count = (st, s, ibuf, count)"

definition fresh_chained :: fmt_fields where
  "fresh_chained = \<lparr>indent_increment = 4, at_start_of_line = True, indent_level = 0\<rparr>"

section \<open>The caller that resubmits\<close>

text \<open>
  A caller of \<open>xsputn\<close> that submits the bytes reported as unprocessed again: at most
  \<open>n\<close> calls, and the bytes still not processed after them.
\<close>

fun resubmit :: "nat \<Rightarrow> fmtstreambuf \<Rightarrow> sink \<Rightarrow> string \<Rightarrow> fmtstreambuf \<times> sink \<times> string" where
  "resubmit 0 st s bs = (st, s, bs)"
| "resubmit (Suc n) st s bs =
     (if bs = [] then (st, s, [])
      else (let (st', s', r) = xsputn st s bs in resubmit n st' s' (drop r bs)))"

section \<open>Observations on the delivered bytes\<close>

text \<open>No two consecutive \<open>EndOfLine\<close> bytes; the last byte is \<open>EndOfLine\<close>.\<close>

fun no_double_eol :: "string \<Rightarrow> bool" where
  "no_double_eol (a # b # cs) = (\<not> (a = EndOfLine \<and> b = EndOfLine) \<and> no_double_eol (b # cs))"
| "no_double_eol cs = True"

definition ends_with_eol :: "string \<Rightarrow> bool" where
  "ends_with_eol d = (d \<noteq> [] \<and> last d = EndOfLine)"

definition is_mark :: "char \<Rightarrow> bool" where
  "is_mark c = (c = indent_code \<or> c = undent_code)"

section \<open>Re-indentation, in the words of the specification\<close>

text \<open>
  The input cut into lines, each with the \<open>EndOfLine\<close> that ends it. The leading
  whitespace of a line is removed and \<open>n\<close> spaces are put in its place; whitespace is
  what \<open>isspace\<close> says, which includes \<open>EndOfLine\<close>, so a line of nothing but
  whitespace leaves nothing behind.
\<close>

fun split_lines :: "string \<Rightarrow> string list" where
  "split_lines [] = []"
| "split_lines (c # cs) =
     (if c = EndOfLine then [c] # split_lines cs
      else (case split_lines cs of [] \<Rightarrow> [[c]] | l # ls \<Rightarrow> (c # l) # ls))"

definition reindent_line :: "nat \<Rightarrow> string \<Rightarrow> string" where
  "reindent_line n l =
     (let l' = dropWhile isspace l
      in if l' = [] then [] else replicate n (CHR 0x20) @ l')"

definition reindented :: "nat \<Rightarrow> string \<Rightarrow> string" where
  "reindented n buf = concat (map (reindent_line n) (split_lines buf))"

text \<open>
  The same output written as one pass over the bytes, from a given line state: at the
  start of a line whitespace is dropped and the first other byte gets the \<open>n\<close> spaces;
  within a line every byte is copied.
\<close>

fun reindent_from :: "bool \<Rightarrow> nat \<Rightarrow> string \<Rightarrow> string" where
  "reindent_from at_start n [] = []"
| "reindent_from at_start n (c # cs) =
     (if at_start then
        (if isspace c then reindent_from True n cs
         else replicate n (CHR 0x20) @ c # reindent_from False n cs)
      else c # reindent_from (c = EndOfLine) n cs)"

section \<open>Proofs\<close>

declare do_indentation_loop.simps [simp del]
declare indent_bytes.simps [simp del]
declare shift_loop.simps [simp del]

subsection \<open>The sink and the indentation loop\<close>

lemma sputn_result:
  assumes "sputn s bs = (s', n)"
  shows "room s' = room s" and "delivered s' = delivered s @ take n bs" and "n \<le> length bs"
  using assms by (auto simp: sputn_def Let_def split: option.splits)

lemma sputn_accept_all:
  assumes "room s = (\<lambda>i. None)"
  shows "sputn s bs = (s\<lparr>delivered := delivered s @ bs, calls := Suc (calls s)\<rparr>, length bs)"
  using assms by (simp add: sputn_def)

lemma chunk_facts:
  fixes p :: "64 word"
  assumes "0 < p"
  shows "unat (min p spaces_count) = min (unat p) 17"
    and "0 < unat (min p spaces_count)"
    and "unat (p - min p spaces_count) = unat p - min (unat p) 17"
proof -
  show a: "unat (min p spaces_count) = min (unat p) 17"
    by (simp add: min_def spaces_count_def word_le_nat_alt)
  show "0 < unat (min p spaces_count)"
    using assms by (simp add: a unat_gt_0)
  have "min p spaces_count \<le> p" by simp
  then have "unat (p - min p spaces_count) = unat p - unat (min p spaces_count)"
    by (simp add: unat_sub)
  then show "unat (p - min p spaces_count) = unat p - min (unat p) 17"
    by (simp add: a)
qed

lemma length_spaces: "length spaces = 17"
  by (simp add: spaces_def)

lemma length_indent_bytes: "length (indent_bytes p) = unat p"
proof (induction p rule: indent_bytes.induct)
  case (1 p)
  show ?case
  proof (cases "0 < p")
    case True
    have "length (indent_bytes p) = min (unat p) 17 + length (indent_bytes (p - min p spaces_count))"
      using True by (subst indent_bytes.simps) (simp add: Let_def chunk_facts length_spaces)
    also have "\<dots> = min (unat p) 17 + (unat p - min (unat p) 17)"
      using 1 True by (simp add: chunk_facts)
    finally show ?thesis by simp
  next
    case False
    then have "p = 0" by (simp add: word_gt_0)
    then show ?thesis by (subst indent_bytes.simps) simp
  qed
qed

lemma indent_bytes_small:
  assumes "unat p \<le> 16"
  shows "indent_bytes p = replicate (unat p) (CHR 0x20)"
proof (cases "0 < p")
  case True
  have m: "unat (min p spaces_count) = unat p"
    using assms True by (simp add: chunk_facts)
  have "min p spaces_count = p"
    using m by (simp add: word_unat_eq_iff)
  then have z: "p - min p spaces_count = 0" by simp
  have "indent_bytes p = take (unat p) spaces @ indent_bytes 0"
    using True by (subst indent_bytes.simps) (simp add: Let_def m z)
  also have "indent_bytes 0 = []" by (subst indent_bytes.simps) simp
  also have "take (unat p) spaces = replicate (unat p) (CHR 0x20)"
    using assms by (simp add: spaces_def min_def)
  finally show ?thesis by simp
next
  case False
  then have "p = 0" by (simp add: word_gt_0)
  then show ?thesis by (subst indent_bytes.simps) simp
qed

lemma set_indent_bytes: "set (indent_bytes p) \<subseteq> {CHR 0x20, CHR 0x00}"
proof (induction p rule: indent_bytes.induct)
  case (1 p)
  show ?case
  proof (cases "0 < p")
    case True
    have "set (take (unat (min p spaces_count)) spaces) \<subseteq> set spaces"
      by (rule set_take_subset)
    moreover have "set spaces \<subseteq> {CHR 0x20, CHR 0x00}" by (auto simp: spaces_def)
    ultimately show ?thesis
      using 1 True by (subst indent_bytes.simps) (auto simp: Let_def)
  next
    case False
    then show ?thesis by (subst indent_bytes.simps) simp
  qed
qed

text \<open>
  What one run of the loop of \<open>do_indentation\<close> does on any sink: it returns the final
  \<open>pending_indent\<close>; the sink has received a leading part of \<open>indent_bytes p\<close>, and all
  of it exactly when the value returned is 0.
\<close>

lemma do_indentation_loop_result:
  assumes "do_indentation_loop p s = (p', s', r)"
  shows "r = p' \<and> room s' = room s
     \<and> (\<exists>d. delivered s' = delivered s @ d \<and> d = take (length d) (indent_bytes p)
            \<and> ((p' = 0) = (d = indent_bytes p)))"
  using assms
proof (induction p s arbitrary: p' s' r rule: do_indentation_loop.induct)
  case (1 p s)
  show ?case
  proof (cases "0 < p")
    case False
    then have p0: "p = 0" by (simp add: word_gt_0)
    have "do_indentation_loop p s = (p, s, 0)"
      using False by (subst do_indentation_loop.simps) simp
    with "1.prems" p0 show ?thesis
      by (simp add: indent_bytes.simps)
  next
    case True
    define m where "m = min p spaces_count"
    define chunk where "chunk = take (unat m) spaces"
    obtain s1 n where sp: "sputn s chunk = (s1, n)" by (cases "sputn s chunk")
    have lc: "length chunk = unat m"
      using True by (simp add: chunk_def m_def chunk_facts length_spaces)
    have ib: "indent_bytes p = chunk @ indent_bytes (p - m)"
      using True by (subst indent_bytes.simps) (simp add: Let_def m_def chunk_def)
    have unf: "do_indentation_loop p s = (if n \<noteq> unat m then (p, s1, p) else do_indentation_loop (p - m) s1)"
      using True sp by (subst do_indentation_loop.simps) (simp add: Let_def m_def chunk_def)
    note sr = sputn_result[OF sp]
    show ?thesis
    proof (cases "n = unat m")
      case False
      then have res: "p' = p" "s' = s1" "r = p" using unf "1.prems" by auto
      have nlt: "n < unat m" using False sr(3) lc by simp
      have d: "delivered s1 = delivered s @ take n chunk" using sr(2) .
      have "take n chunk = take (length (take n chunk)) (indent_bytes p)"
        using nlt lc by (simp add: ib min_def)
      moreover have "take n chunk \<noteq> indent_bytes p"
      proof
        assume "take n chunk = indent_bytes p"
        then have "length (take n chunk) = length (indent_bytes p)" by simp
        then show False using nlt lc by (simp add: ib)
      qed
      moreover have "p \<noteq> 0" using True by (simp add: word_gt_0)
      ultimately show ?thesis using res sr(1) d by auto
    next
      case True2: True
      then have rec: "do_indentation_loop (p - m) s1 = (p', s', r)" using unf "1.prems" by simp
      have full: "take n chunk = chunk" using True2 lc by simp
      have ih: "r = p' \<and> room s' = room s1
         \<and> (\<exists>d. delivered s' = delivered s1 @ d \<and> d = take (length d) (indent_bytes (p - m))
            \<and> ((p' = 0) = (d = indent_bytes (p - m))))"
        using "1.IH" [of m "sputn s chunk" s1 n p' s' r] True sp True2 rec
        by (simp add: m_def chunk_def)
      then obtain d where d: "delivered s' = delivered s1 @ d" "d = take (length d) (indent_bytes (p - m))"
          "(p' = 0) = (d = indent_bytes (p - m))" by blast
      have e1: "delivered s' = delivered s @ (chunk @ d)" using d(1) sr(2) full by simp
      have e2: "chunk @ d = take (length (chunk @ d)) (indent_bytes p)"
        using d(2) by (simp add: ib)
      have e3: "(p' = 0) = (chunk @ d = indent_bytes p)" using d(3) by (simp add: ib)
      have "\<exists>d. delivered s' = delivered s @ d \<and> d = take (length d) (indent_bytes p)
            \<and> ((p' = 0) = (d = indent_bytes p))"
        using e1 e2 e3 by (intro exI [of _ "chunk @ d"] conjI)
      then show ?thesis using ih sr(1) by simp
    qed
  qed
qed

subsection \<open>The indent level\<close>

lemma unat_pred_word: "0 < (x :: 64 word) \<Longrightarrow> Suc (unat (x - 1)) = unat x"
  by (simp add: unat_gt_0 unat_minus_one)

text \<open>
  C8. \<open>undent\<close> at level 0 leaves the level at 0; at a level above 0 it takes exactly one
  off. The level is an unsigned value, so it is never negative, and \<open>undent\<close> has no
  failing path: it returns a filter for every filter.
\<close>

theorem undent_floor:
  "(indent_level st = 0 \<longrightarrow> indent_level (undent st) = 0)
   \<and> (0 < indent_level st \<longrightarrow>
        indent_level (undent st) = indent_level st - 1
        \<and> Suc (unat (indent_level (undent st))) = unat (indent_level st))
   \<and> 0 \<le> uint (indent_level (undent st))"
  by (simp add: undent_def unat_pred_word)

theorem undent_floor_witness:
  "indent_level fresh = 0 \<and> indent_level (undent fresh) = 0
   \<and> 0 < indent_level (fresh\<lparr>indent_level := 3\<rparr>)
   \<and> indent_level (undent (fresh\<lparr>indent_level := 3\<rparr>)) = 2
   \<and> unat (indent_level (undent (fresh\<lparr>indent_level := 3\<rparr>))) = 2"
  using undent_floor [of fresh] undent_floor [of "fresh\<lparr>indent_level := 3\<rparr>"]
  by (simp add: fresh_def)

subsection \<open>Reading\<close>

text \<open>
  C10. The read operation of either variant returns \<open>count\<close> for every destination
  buffer and every count, and leaves the destination buffer, the sink and the filter as
  they were.
\<close>

theorem read_reports_count_and_moves_nothing:
  "xsgetn st s ibuf count = (st, s, ibuf, count)
   \<and> filter_read fs s ibuf count = (fs, s, ibuf, count)"
  by (simp add: xsgetn_def filter_read_def)

subsection \<open>Construction\<close>

text \<open>
  C5, as the code has it. No constructor looks at the pointer it is given: for every
  pointer, null included, construction succeeds, the pointer is stored as it is and the
  filter starts at level 0, at the start of a line, with nothing pending and an empty
  put area.
\<close>

theorem construction_stores_any_pointer:
  "basic_fmtstreambuf nxt =
     Inr \<lparr>indent_increment = 4, at_start_of_line = True, indent_level = 0,
          next_buf = nxt, pending_indent = 0\<rparr>
   \<and> basic_filter_streambuf nxt mem = Inr \<lparr>next_sink = nxt, obuf = mem, pptr = 0\<rparr>
   \<and> basic_fmtstreambuf_chained nxt mem =
     Inr (\<lparr>next_sink = nxt, obuf = mem, pptr = 0\<rparr>,
          \<lparr>indent_increment = 4, at_start_of_line = True, indent_level = 0\<rparr>)"
  by (simp add: basic_fmtstreambuf_def basic_filter_streambuf_def
      basic_fmtstreambuf_chained_def)

lemma fresh_is_constructed: "basic_fmtstreambuf (Some 0) = Inr fresh"
  by (simp add: basic_fmtstreambuf_def fresh_def)

lemma fresh_chained_is_constructed:
  "basic_fmtstreambuf_chained nxt mem = Inr (b, fs) \<Longrightarrow> fs = fresh_chained"
  by (auto simp: basic_fmtstreambuf_chained_def basic_filter_streambuf_def fresh_chained_def)

text \<open>
  C5 as stated fails: construction on the null pointer is not a failure, for any of the
  three constructors.
\<close>

theorem construction_on_null_succeeds:
  "\<not> ((\<exists>e. basic_fmtstreambuf None = Inl e)
      \<or> (\<exists>e. basic_filter_streambuf None (replicate 64 (CHR 0x00)) = Inl e)
      \<or> (\<exists>e. basic_fmtstreambuf_chained None (replicate 64 (CHR 0x00)) = Inl e))"
  by (simp add: basic_fmtstreambuf_def basic_filter_streambuf_def
      basic_fmtstreambuf_chained_def)

subsection \<open>The block scenario\<close>

text \<open>
  C3. A new filter with \<open>indent_increment = 4\<close> at level 0 on a sink that takes
  everything: writing "A", \<open>begin('{')\<close>, "B", \<open>end('}')\<close> delivers exactly
  "A{", newline, four spaces, "B", newline, "}", newline. This holds when the nine
  bytes are written in one call, when they are written in four calls as the stream
  inserter does, and for the variant on the chaining buffer.
\<close>

theorem block_scenario_output:
  "(case xsputn fresh accept_all
           (''A'' @ basic_begin (CHR ''{'') @ ''B'' @ basic_end (CHR ''}'')) of
      (st', s', n) \<Rightarrow> (delivered s', n, indent_level st', at_start_of_line st'))
     = (''A{\<newline>    B\<newline>}\<newline>'', 9, 0, True)
   \<and> (case xsputn fresh accept_all ''A'' of (st1, s1, n1) \<Rightarrow>
       case xsputn st1 s1 (basic_begin (CHR ''{'')) of (st2, s2, n2) \<Rightarrow>
       case xsputn st2 s2 ''B'' of (st3, s3, n3) \<Rightarrow>
       case xsputn st3 s3 (basic_end (CHR ''}'')) of (st4, s4, n4) \<Rightarrow>
         (delivered s4, [n1, n2, n3, n4]))
     = (''A{\<newline>    B\<newline>}\<newline>'', [1, 3, 1, 4])
   \<and> (case filter_write fresh_chained accept_all
           (''A'' @ basic_begin (CHR ''{'') @ ''B'' @ basic_end (CHR ''}'')) of
      (st', s', n) \<Rightarrow> (delivered s', n))
     = (''A{\<newline>    B\<newline>}\<newline>'', 9)"
  by code_simp

subsection \<open>Indentation of more than sixteen columns\<close>

text \<open>
  C2 at a failing input. At level 5 with \<open>indent_increment = 4\<close> the filter owes twenty
  spaces before "x". The first chunk \<open>do_indentation\<close> offers is the whole array
  \<open>spaces\<close>, \<open>sizeof(spaces) = 17\<close> bytes: sixteen spaces and the zero byte that ends
  the string literal. The sink receives sixteen spaces, a zero byte, three spaces and
  "x", which is not twenty spaces and "x".
\<close>

theorem indentation_of_twenty_has_a_zero_byte:
  "(case xsputn (fresh\<lparr>indent_level := 5\<rparr>) accept_all ''x'' of
      (st', s', n) \<Rightarrow> (delivered s', n))
     = (replicate 16 (CHR 0x20) @ [CHR 0x00] @ ''   x'', 1)
   \<and> replicate 16 (CHR 0x20) @ [CHR 0x00] @ ''   x'' \<noteq> replicate (5 * 4) (CHR 0x20) @ ''x''"
  by code_simp

subsection \<open>A short write in the chaining buffer\<close>

text \<open>
  C4 at a failing input. A buffer of four characters holds "abcd" and is full; the
  sink takes one byte of the four offered. The remainder is "bcd". The copy loop stops
  at \<open>sizeof(obuf) - n\<close>, so it moves "bc" only, and the put pointer is set to
  \<open>sizeof(obuf) - n = 3\<close>: the bytes kept for the next call are "bcc". The byte "d" is
  lost and "c" is there twice.
\<close>

theorem sync_short_write_keeps_wrong_bytes:
  "map_option (\<lambda>(d, b, s, r). (waiting b, obuf b, pptr b, delivered s, r))
     (sync filter_write_default ()
        \<lparr>next_sink = Some 0, obuf = ''abcd'', pptr = 4\<rparr> (accept_only 1))
     = Some (''bcc'', ''bccd'', 3, ''a'', 0)"
  by code_simp

subsection \<open>A sink that takes one byte per call\<close>

lemma do_indentation_loop_four_cut_short:
  assumes "room s = (\<lambda>i. Some (Suc 0))"
  shows "do_indentation_loop 4 s =
           (4, s\<lparr>delivered := delivered s @ '' '', calls := Suc (calls s)\<rparr>, 4)"
  using assms
  by (subst do_indentation_loop.simps)
     (simp add: sputn_def spaces_def spaces_count_def Let_def)

lemma resubmit_stuck:
  assumes "room s = (\<lambda>i. Some (Suc 0))"
  shows "resubmit n (fresh\<lparr>indent_level := 1, pending_indent := 4\<rparr>) s ''x'' =
         (fresh\<lparr>indent_level := 1, pending_indent := 4\<rparr>,
          s\<lparr>delivered := delivered s @ replicate n (CHR 0x20), calls := calls s + n\<rparr>,
          ''x'')"
  using assms
proof (induction n arbitrary: s)
  case 0
  then show ?case by simp
next
  case (Suc n)
  have call: "xsputn (fresh\<lparr>indent_level := 1, pending_indent := 4\<rparr>) s ''x'' =
      (fresh\<lparr>indent_level := 1, pending_indent := 4\<rparr>,
       s\<lparr>delivered := delivered s @ '' '', calls := Suc (calls s)\<rparr>, 0)"
    using Suc.prems
    by (simp add: xsputn_def do_indentation_def do_indentation_loop_four_cut_short fresh_def)
  have "room (s\<lparr>delivered := delivered s @ '' '', calls := Suc (calls s)\<rparr>) = (\<lambda>i. Some (Suc 0))"
    using Suc.prems by simp
  from Suc.IH [OF this] show ?case
    by (simp add: call replicate_append_same)
qed

lemma first_call_cut_short:
  assumes "room s = (\<lambda>i. Some (Suc 0))"
  shows "xsputn fresh s [indent_code, CHR ''x''] =
     (fresh\<lparr>indent_level := 1, pending_indent := 4\<rparr>,
      s\<lparr>delivered := delivered s @ '' '', calls := Suc (calls s)\<rparr>, 1)"
  using assms
  by (simp add: xsputn_def fresh_def indent_def indent_code_def undent_code_def isspace_def
      do_indentation_def do_indentation_loop_four_cut_short)

lemma resubmit_never_done:
  assumes "room s = (\<lambda>i. Some (Suc 0))"
  shows "resubmit (Suc n) fresh s [indent_code, CHR ''x''] =
     (fresh\<lparr>indent_level := 1, pending_indent := 4\<rparr>,
      s\<lparr>delivered := delivered s @ replicate (Suc n) (CHR 0x20), calls := calls s + Suc n\<rparr>,
      ''x'')"
proof -
  have r: "room (s\<lparr>delivered := delivered s @ '' '', calls := Suc (calls s)\<rparr>)
             = (\<lambda>i. Some (Suc 0))"
    using assms by simp
  show ?thesis
    by (simp add: first_call_cut_short [OF assms] resubmit_stuck [OF r])
qed

text \<open>
  C1 at a failing input. A new filter receives \<open>Indent\<close> and "x" on a sink that takes
  one byte per call. The first call offers four spaces, one is taken, and
  \<open>do_indentation\<close> reports four still pending, not three. Every later call offers four
  spaces again, one more is taken, and the call returns 0. After any number \<open>n + 1\<close> of
  calls the sink holds \<open>n + 1\<close> spaces and "x" is still unprocessed: the caller never
  gets done, and from the fifth call on the sink holds more spaces than the four that
  the sink taking everything receives before "x".
\<close>

theorem resubmit_on_one_byte_sink_repeats_spaces:
  "(case resubmit (Suc n) fresh (accept_only 1) [indent_code, CHR ''x''] of
      (st', s', rest) \<Rightarrow> (delivered s', rest)) = (replicate (Suc n) (CHR 0x20), ''x'')
   \<and> (case resubmit 1 fresh accept_all [indent_code, CHR ''x''] of
      (st', s', rest) \<Rightarrow> (delivered s', rest)) = (''    x'', [])"
proof -
  have a: "(case resubmit (Suc n) fresh (accept_only 1) [indent_code, CHR ''x''] of
      (st', s', rest) \<Rightarrow> (delivered s', rest)) = (replicate (Suc n) (CHR 0x20), ''x'')"
    using resubmit_never_done [of "accept_only 1" n] by (simp add: accept_only_def)
  have b: "(case resubmit 1 fresh accept_all [indent_code, CHR ''x''] of
      (st', s', rest) \<Rightarrow> (delivered s', rest)) = (''    x'', [])"
    by code_simp
  show ?thesis using a b by simp
qed

text \<open>
  The same input on a sink that takes one byte at its first call and everything from
  then on. The second call writes the four pending spaces, finds the filter still at
  the start of the line, and writes the indentation of "x" once more: nine spaces reach
  the sink before "x".
\<close>

lemma resubmit_after_one_short_write:
  "(case resubmit 2 fresh \<lparr>delivered = [], room = (\<lambda>i. if i = 0 then Some 1 else None), calls = 0\<rparr>
           [indent_code, CHR ''x''] of
      (st', s', rest) \<Rightarrow> (delivered s', rest)) = (replicate 9 (CHR 0x20) @ ''x'', [])"
  by code_simp

subsection \<open>Control marks never reach the sink\<close>

lemma do_indentation_result:
  assumes "do_indentation st s p = (st1, s1, r)"
  shows "st1 = st\<lparr>pending_indent := r\<rparr>" and "room s1 = room s"
    and "\<exists>d. delivered s1 = delivered s @ d \<and> d = take (length d) (indent_bytes p)
            \<and> ((r = 0) = (d = indent_bytes p))"
proof -
  obtain p' s' r' where l: "do_indentation_loop p s = (p', s', r')"
    by (cases "do_indentation_loop p s")
  from assms l have eq: "st1 = st\<lparr>pending_indent := p'\<rparr>" "s1 = s'" "r = r'"
    by (simp_all add: do_indentation_def)
  note res = do_indentation_loop_result [OF l]
  show "st1 = st\<lparr>pending_indent := r\<rparr>" using eq res by simp
  show "room s1 = room s" using eq res by simp
  show "\<exists>d. delivered s1 = delivered s @ d \<and> d = take (length d) (indent_bytes p)
            \<and> ((r = 0) = (d = indent_bytes p))"
    using eq res by simp
qed

lemma marks_not_padding: "indent_code \<notin> set (indent_bytes p) \<and> undent_code \<notin> set (indent_bytes p)"
  using set_indent_bytes [of p] by (auto simp: indent_code_def undent_code_def)

lemma do_indentation_no_marks:
  assumes "do_indentation st s p = (st1, s1, r)"
  shows "\<exists>d. delivered s1 = delivered s @ d \<and> indent_code \<notin> set d \<and> undent_code \<notin> set d"
proof -
  from do_indentation_result(3) [OF assms] obtain d where
    d: "delivered s1 = delivered s @ d" "d = take (length d) (indent_bytes p)" by blast
  have "set d \<subseteq> set (indent_bytes p)"
    using d(2) set_take_subset [of "length d" "indent_bytes p"] by simp
  then show ?thesis using d(1) marks_not_padding [of p] by blast
qed

lemma xsputn_loop_emit:
  assumes "c \<noteq> indent_code" and "c \<noteq> undent_code" and "\<not> (at_start_of_line st \<and> isspace c)"
    and "(if at_start_of_line st
          then do_indentation st s (indent_level st * indent_increment st)
          else (st, s, 0)) = (st1, s1, r)"
    and "sputn s1 [c] = (s2, n)"
  shows "xsputn_loop st s (c # cs) idx =
     (if r \<noteq> 0 then (st1, s1, idx)
      else if n \<noteq> 1 then (st1\<lparr>at_start_of_line := (c = EndOfLine)\<rparr>, s2, idx)
      else xsputn_loop (st1\<lparr>at_start_of_line := (c = EndOfLine)\<rparr>) s2 cs (Suc idx))"
  using assms by (cases "at_start_of_line st") (simp_all del: One_nat_def)

lemma xsputn_loop_no_marks:
  assumes "xsputn_loop st s buf idx = (st', s', n)"
  shows "\<exists>d. delivered s' = delivered s @ d \<and> indent_code \<notin> set d \<and> undent_code \<notin> set d"
  using assms
proof (induction buf arbitrary: st s idx)
  case Nil
  then show ?case by simp
next
  case (Cons c cs)
  consider (ind) "c = indent_code" | (und) "c \<noteq> indent_code" "c = undent_code"
    | (skip) "c \<noteq> indent_code" "c \<noteq> undent_code" "at_start_of_line st \<and> isspace c"
    | (emit) "c \<noteq> indent_code" "c \<noteq> undent_code" "\<not> (at_start_of_line st \<and> isspace c)"
    by blast
  then show ?case
  proof cases
    case ind
    with Cons.prems have "xsputn_loop (indent st) s cs (Suc idx) = (st', s', n)" by simp
    then show ?thesis by (rule Cons.IH)
  next
    case und
    with Cons.prems have "xsputn_loop (undent st) s cs (Suc idx) = (st', s', n)" by simp
    then show ?thesis by (rule Cons.IH)
  next
    case skip
    with Cons.prems have "xsputn_loop st s cs (Suc idx) = (st', s', n)" by simp
    then show ?thesis by (rule Cons.IH)
  next
    case emit
    obtain st1 s1 r where di: "(if at_start_of_line st
          then do_indentation st s (indent_level st * indent_increment st)
          else (st, s, 0)) = (st1, s1, r)"
      by (cases "(if at_start_of_line st
          then do_indentation st s (indent_level st * indent_increment st)
          else (st, s, 0))")
    obtain s2 k where sp: "sputn s1 [c] = (s2, k)" by (cases "sputn s1 [c]")
    note unf = xsputn_loop_emit [OF emit di sp, of cs idx]
    have pad: "\<exists>d. delivered s1 = delivered s @ d \<and> indent_code \<notin> set d \<and> undent_code \<notin> set d"
    proof (cases "at_start_of_line st")
      case True
      with di show ?thesis by (simp add: do_indentation_no_marks)
    next
      case False
      with di show ?thesis by simp
    qed
    then obtain d1 where d1: "delivered s1 = delivered s @ d1" "indent_code \<notin> set d1" "undent_code \<notin> set d1"
      by blast
    have d2: "delivered s2 = delivered s1 @ take k [c]" using sputn_result(2) [OF sp] .
    have c2: "indent_code \<notin> set (take k [c]) \<and> undent_code \<notin> set (take k [c])"
      using emit(1,2) by (cases k) auto
    show ?thesis
    proof (cases "r \<noteq> 0")
      case True
      with unf Cons.prems have "s' = s1" by simp
      then show ?thesis using d1 by blast
    next
      case r0: False
      show ?thesis
      proof (cases "k \<noteq> 1")
        case True
        with unf r0 Cons.prems have "s' = s2" by simp
        then have "delivered s' = delivered s @ (d1 @ take k [c])" using d1(1) d2 by simp
        moreover have "indent_code \<notin> set (d1 @ take k [c]) \<and> undent_code \<notin> set (d1 @ take k [c])"
          using d1 c2 by simp
        ultimately show ?thesis by blast
      next
        case False
        with unf r0 Cons.prems have
          "xsputn_loop (st1\<lparr>at_start_of_line := (c = EndOfLine)\<rparr>) s2 cs (Suc idx) = (st', s', n)"
          by simp
        from Cons.IH [OF this] obtain d3 where
          d3: "delivered s' = delivered s2 @ d3" "indent_code \<notin> set d3" "undent_code \<notin> set d3"
          by blast
        have "delivered s' = delivered s @ (d1 @ take k [c] @ d3)" using d1(1) d2 d3(1) by simp
        moreover have "indent_code \<notin> set (d1 @ take k [c] @ d3) \<and> undent_code \<notin> set (d1 @ take k [c] @ d3)"
          using d1 c2 d3 by simp
        ultimately show ?thesis by blast
      qed
    qed
  qed
qed

lemma xsputn_no_marks:
  assumes "xsputn st s buf = (st', s', n)"
  shows "\<exists>d. delivered s' = delivered s @ d \<and> indent_code \<notin> set d \<and> undent_code \<notin> set d"
proof (cases "0 < pending_indent st")
  case False
  with assms have "xsputn_loop st s buf 0 = (st', s', n)" by (simp add: xsputn_def)
  then show ?thesis by (rule xsputn_loop_no_marks)
next
  case True
  obtain st1 s1 r where di: "do_indentation st s (pending_indent st) = (st1, s1, r)"
    by (cases "do_indentation st s (pending_indent st)")
  from do_indentation_no_marks [OF di] obtain d1 where
    d1: "delivered s1 = delivered s @ d1" "indent_code \<notin> set d1" "undent_code \<notin> set d1" by blast
  show ?thesis
  proof (cases "r \<noteq> 0")
    case True
    with assms \<open>0 < pending_indent st\<close> di have "s' = s1" by (simp add: xsputn_def)
    then show ?thesis using d1 by blast
  next
    case False
    with assms \<open>0 < pending_indent st\<close> di have "xsputn_loop st1 s1 buf 0 = (st', s', n)"
      by (simp add: xsputn_def)
    from xsputn_loop_no_marks [OF this] obtain d2 where
      d2: "delivered s' = delivered s1 @ d2" "indent_code \<notin> set d2" "undent_code \<notin> set d2" by blast
    have "delivered s' = delivered s @ (d1 @ d2)" using d1(1) d2(1) by simp
    moreover have "indent_code \<notin> set (d1 @ d2) \<and> undent_code \<notin> set (d1 @ d2)"
      using d1 d2 by simp
    ultimately show ?thesis by blast
  qed
qed

lemma sputc_result:
  assumes "sputc s c = (s', ok)"
  shows "room s' = room s" and "delivered s' = delivered s @ (if ok then [c] else [])"
proof -
  obtain n where sp: "sputn s [c] = (s', n)" and ok: "ok = (n = 1)"
    using assms by (auto simp: sputc_def split: prod.splits)
  note r = sputn_result [OF sp]
  show "room s' = room s" using r(1) .
  have "n = 0 \<or> n = 1" using r(3) by auto
  then show "delivered s' = delivered s @ (if ok then [c] else [])"
    using r(2) ok by auto
qed

lemma put_spaces_result:
  assumes "put_spaces k s = (s', ok)"
  shows "room s' = room s \<and> (\<exists>j. j \<le> k \<and> delivered s' = delivered s @ replicate j (CHR 0x20)
            \<and> (ok = (j = k)))"
  using assms
proof (induction k arbitrary: s)
  case 0
  then show ?case by simp
next
  case (Suc k)
  obtain s1 ok1 where sc: "sputc s (CHR 0x20) = (s1, ok1)" by (cases "sputc s (CHR 0x20)")
  note r = sputc_result [OF sc]
  show ?case
  proof (cases ok1)
    case False
    with Suc.prems sc have "s' = s1" "ok = False" by simp_all
    then have "delivered s' = delivered s @ replicate 0 (CHR 0x20)" using r(2) False by simp
    then show ?thesis using r(1) \<open>s' = s1\<close> \<open>ok = False\<close> by (intro conjI exI [of _ 0]) simp_all
  next
    case True
    with Suc.prems sc have "put_spaces k s1 = (s', ok)" by simp
    from Suc.IH [OF this] obtain j where
      j: "room s' = room s1" "j \<le> k" "delivered s' = delivered s1 @ replicate j (CHR 0x20)" "ok = (j = k)"
      by blast
    have "delivered s' = delivered s @ replicate (Suc j) (CHR 0x20)"
      using j(3) r(2) True by (simp add: replicate_append_same)
    then show ?thesis using j r(1) by (intro conjI exI [of _ "Suc j"]) simp_all
  qed
qed

lemma put_spaces_no_marks:
  assumes "put_spaces k s = (s', ok)"
  shows "\<exists>d. delivered s' = delivered s @ d \<and> indent_code \<notin> set d \<and> undent_code \<notin> set d"
proof -
  from put_spaces_result [OF assms] obtain j where
    "delivered s' = delivered s @ replicate j (CHR 0x20)" by blast
  moreover have "indent_code \<notin> set (replicate j (CHR 0x20)) \<and> undent_code \<notin> set (replicate j (CHR 0x20))"
    by (auto simp: indent_code_def undent_code_def)
  ultimately show ?thesis by blast
qed

lemma filter_write_loop_emit:
  assumes "c \<noteq> indent_code" and "c \<noteq> undent_code" and "\<not> (at_start_of_line st \<and> isspace c)"
    and "(if at_start_of_line st
          then put_spaces (unat (indent_level st * indent_increment st)) s
          else (s, True)) = (s1, ok)"
    and "sputc s1 c = (s2, ok2)"
  shows "filter_write_loop st s (c # cs) idx =
     (if \<not> ok then (st, s1, idx)
      else if \<not> ok2 then (st\<lparr>at_start_of_line := (c = EndOfLine)\<rparr>, s2, idx)
      else filter_write_loop (st\<lparr>at_start_of_line := (c = EndOfLine)\<rparr>) s2 cs (Suc idx))"
  using assms by (cases "at_start_of_line st") simp_all

lemma filter_write_loop_no_marks:
  assumes "filter_write_loop st s buf idx = (st', s', n)"
  shows "\<exists>d. delivered s' = delivered s @ d \<and> indent_code \<notin> set d \<and> undent_code \<notin> set d"
  using assms
proof (induction buf arbitrary: st s idx)
  case Nil
  then show ?case by simp
next
  case (Cons c cs)
  consider (ind) "c = indent_code" | (und) "c \<noteq> indent_code" "c = undent_code"
    | (skip) "c \<noteq> indent_code" "c \<noteq> undent_code" "at_start_of_line st \<and> isspace c"
    | (emit) "c \<noteq> indent_code" "c \<noteq> undent_code" "\<not> (at_start_of_line st \<and> isspace c)"
    by blast
  then show ?case
  proof cases
    case ind
    with Cons.prems have "filter_write_loop (indent st) s cs (Suc idx) = (st', s', n)" by simp
    then show ?thesis by (rule Cons.IH)
  next
    case und
    with Cons.prems have "filter_write_loop (undent st) s cs (Suc idx) = (st', s', n)" by simp
    then show ?thesis by (rule Cons.IH)
  next
    case skip
    with Cons.prems have "filter_write_loop st s cs (Suc idx) = (st', s', n)" by simp
    then show ?thesis by (rule Cons.IH)
  next
    case emit
    obtain s1 ok where ps: "(if at_start_of_line st
          then put_spaces (unat (indent_level st * indent_increment st)) s
          else (s, True)) = (s1, ok)"
      by (cases "(if at_start_of_line st
          then put_spaces (unat (indent_level st * indent_increment st)) s
          else (s, True))")
    obtain s2 ok2 where sc: "sputc s1 c = (s2, ok2)" by (cases "sputc s1 c")
    note unf = filter_write_loop_emit [OF emit ps sc, of cs idx]
    have pad: "\<exists>d. delivered s1 = delivered s @ d \<and> indent_code \<notin> set d \<and> undent_code \<notin> set d"
    proof (cases "at_start_of_line st")
      case True
      with ps show ?thesis by (simp add: put_spaces_no_marks)
    next
      case False
      with ps show ?thesis by simp
    qed
    then obtain d1 where d1: "delivered s1 = delivered s @ d1" "indent_code \<notin> set d1" "undent_code \<notin> set d1"
      by blast
    define e where "e = (if ok2 then [c] else [])"
    have d2: "delivered s2 = delivered s1 @ e" using sputc_result(2) [OF sc] by (simp add: e_def)
    have c2: "indent_code \<notin> set e \<and> undent_code \<notin> set e"
      using emit(1,2) by (auto simp: e_def)
    show ?thesis
    proof (cases ok)
      case False
      with unf Cons.prems have "s' = s1" by simp
      then show ?thesis using d1 by blast
    next
      case okT: True
      show ?thesis
      proof (cases ok2)
        case False
        with unf okT Cons.prems have "s' = s2" by simp
        then have "delivered s' = delivered s @ (d1 @ e)" using d1(1) d2 by simp
        moreover have "indent_code \<notin> set (d1 @ e) \<and> undent_code \<notin> set (d1 @ e)"
          using d1 c2 by simp
        ultimately show ?thesis by blast
      next
        case True
        with unf okT Cons.prems have
          "filter_write_loop (st\<lparr>at_start_of_line := (c = EndOfLine)\<rparr>) s2 cs (Suc idx) = (st', s', n)"
          by simp
        from Cons.IH [OF this] obtain d3 where
          d3: "delivered s' = delivered s2 @ d3" "indent_code \<notin> set d3" "undent_code \<notin> set d3"
          by blast
        have "delivered s' = delivered s @ (d1 @ e @ d3)" using d1(1) d2 d3(1) by simp
        moreover have "indent_code \<notin> set (d1 @ e @ d3) \<and> undent_code \<notin> set (d1 @ e @ d3)"
          using d1 c2 d3 by simp
        ultimately show ?thesis by blast
      qed
    qed
  qed
qed

lemma indent_keeps_line_state:
  "at_start_of_line (indent st) = at_start_of_line st"
  "at_start_of_line (undent st) = at_start_of_line st"
  by (simp_all add: indent_def undent_def)

lemma xsputn_loop_marks_only:
  assumes "list_all is_mark buf"
  shows "at_start_of_line (fst (xsputn_loop st s buf idx)) = at_start_of_line st
         \<and> fst (snd (xsputn_loop st s buf idx)) = s
         \<and> snd (snd (xsputn_loop st s buf idx)) = idx + length buf"
  using assms
proof (induction buf arbitrary: st idx)
  case Nil
  then show ?case by simp
next
  case (Cons c cs)
  from Cons.prems have mc: "is_mark c" and rest: "list_all is_mark cs"
    by simp_all
  from mc have m: "c = indent_code \<or> c = undent_code"
    by (simp add: is_mark_def)
  from m show ?case
  proof
    assume "c = indent_code"
    then show ?thesis using Cons.IH [OF rest, of "indent st" "Suc idx"]
      by (simp add: indent_keeps_line_state)
  next
    assume c: "c = undent_code"
    then have "c \<noteq> indent_code" by (simp add: indent_code_def undent_code_def)
    then show ?thesis using c Cons.IH [OF rest, of "undent st" "Suc idx"]
      by (simp add: indent_keeps_line_state)
  qed
qed

lemma filter_write_loop_marks_only:
  assumes "list_all is_mark buf"
  shows "at_start_of_line (fst (filter_write_loop st s buf idx)) = at_start_of_line st
         \<and> fst (snd (filter_write_loop st s buf idx)) = s
         \<and> snd (snd (filter_write_loop st s buf idx)) = idx + length buf"
  using assms
proof (induction buf arbitrary: st idx)
  case Nil
  then show ?case by simp
next
  case (Cons c cs)
  from Cons.prems have mc: "is_mark c" and rest: "list_all is_mark cs"
    by simp_all
  from mc have m: "c = indent_code \<or> c = undent_code"
    by (simp add: is_mark_def)
  from m show ?case
  proof
    assume "c = indent_code"
    then show ?thesis using Cons.IH [OF rest, of "indent st" "Suc idx"]
      by (simp add: indent_keeps_line_state)
  next
    assume c: "c = undent_code"
    then have "c \<noteq> indent_code" by (simp add: indent_code_def undent_code_def)
    then show ?thesis using c Cons.IH [OF rest, of "undent st" "Suc idx"]
      by (simp add: indent_keeps_line_state)
  qed
qed

lemma xsputn_marks_only:
  assumes "list_all is_mark buf"
  shows "at_start_of_line (fst (xsputn st s buf)) = at_start_of_line st"
proof (cases "0 < pending_indent st")
  case False
  then show ?thesis using xsputn_loop_marks_only [OF assms, of st s 0] by (simp add: xsputn_def)
next
  case True
  obtain st1 s1 r where di: "do_indentation st s (pending_indent st) = (st1, s1, r)"
    by (cases "do_indentation st s (pending_indent st)")
  have st1: "at_start_of_line st1 = at_start_of_line st"
    using do_indentation_result(1) [OF di] by simp
  show ?thesis
    using True di st1 xsputn_loop_marks_only [OF assms, of st1 s1 0]
    by (simp add: xsputn_def)
qed

text \<open>
  C7. Whatever the input and however the sink behaves, the bytes a write delivers to the
  sink contain neither \<open>Indent\<close> nor \<open>Undent\<close>, for both variants of the filter. A
  mark at the head of the input is consumed by \<open>indent\<close> or \<open>undent\<close> alone, which leave
  \<open>at_start_of_line\<close> as it is; so a write of nothing but marks ends with the line
  state it started with.
\<close>

theorem marks_never_reach_the_sink:
  "(\<exists>d. delivered (fst (snd (xsputn st s buf))) = delivered s @ d
        \<and> indent_code \<notin> set d \<and> undent_code \<notin> set d)
   \<and> (\<exists>d. delivered (fst (snd (filter_write fs s buf))) = delivered s @ d
        \<and> indent_code \<notin> set d \<and> undent_code \<notin> set d)
   \<and> xsputn_loop st s (indent_code # cs) idx = xsputn_loop (indent st) s cs (Suc idx)
   \<and> xsputn_loop st s (undent_code # cs) idx = xsputn_loop (undent st) s cs (Suc idx)
   \<and> filter_write_loop fs s (indent_code # cs) idx = filter_write_loop (indent fs) s cs (Suc idx)
   \<and> filter_write_loop fs s (undent_code # cs) idx = filter_write_loop (undent fs) s cs (Suc idx)
   \<and> at_start_of_line (indent st) = at_start_of_line st
   \<and> at_start_of_line (undent st) = at_start_of_line st
   \<and> at_start_of_line (indent fs) = at_start_of_line fs
   \<and> at_start_of_line (undent fs) = at_start_of_line fs
   \<and> (list_all is_mark marks \<longrightarrow>
        at_start_of_line (fst (xsputn st s marks)) = at_start_of_line st
        \<and> at_start_of_line (fst (filter_write fs s marks)) = at_start_of_line fs)"
proof -
  have a: "\<exists>d. delivered (fst (snd (xsputn st s buf))) = delivered s @ d
        \<and> indent_code \<notin> set d \<and> undent_code \<notin> set d"
    by (rule xsputn_no_marks [of st s buf "fst (xsputn st s buf)" _ "snd (snd (xsputn st s buf))"]) simp
  have b: "\<exists>d. delivered (fst (snd (filter_write fs s buf))) = delivered s @ d
        \<and> indent_code \<notin> set d \<and> undent_code \<notin> set d"
    unfolding filter_write_def
    by (rule filter_write_loop_no_marks [of fs s buf 0 "fst (filter_write_loop fs s buf 0)" _
          "snd (snd (filter_write_loop fs s buf 0))"]) simp
  have ne: "undent_code \<noteq> indent_code" by (simp add: indent_code_def undent_code_def)
  have c: "list_all is_mark marks \<longrightarrow>
        at_start_of_line (fst (xsputn st s marks)) = at_start_of_line st
        \<and> at_start_of_line (fst (filter_write fs s marks)) = at_start_of_line fs"
    using xsputn_marks_only [of marks st s] filter_write_loop_marks_only [of marks fs s 0]
    by (simp add: filter_write_def)
  show ?thesis using a b c ne by (simp add: indent_keeps_line_state)
qed

theorem marks_never_reach_the_sink_witness:
  "list_all is_mark [indent_code, undent_code, undent_code]
   \<and> at_start_of_line (fst (xsputn (fresh\<lparr>at_start_of_line := False\<rparr>) (accept_only 1)
         [indent_code, undent_code, undent_code])) = False
   \<and> at_start_of_line (fst (filter_write fresh_chained (accept_only 1)
         [indent_code, undent_code, undent_code])) = True"
  using marks_never_reach_the_sink [where marks = "[indent_code, undent_code, undent_code]"
      and st = "fresh\<lparr>at_start_of_line := False\<rparr>" and fs = fresh_chained and s = "accept_only 1"]
  by (simp add: is_mark_def fresh_def fresh_chained_def)

subsection \<open>Indentation owed from an earlier write\<close>

text \<open>
  The order of events when a write starts with \<open>pending_indent > 0\<close>, on any sink. The
  first thing the write does is offer the
  owed bytes \<open>indent_bytes (pending_indent st)\<close> to the sink (up to sixteen owed bytes
  these are that many spaces). What the sink receives of them is \<open>d\<close>. If that is all
  of them, \<open>pending_indent\<close> is 0 and the input is processed from its first byte, so
  everything else the call delivers comes after \<open>d\<close>. If it is not, the call returns 0
  with no byte of the input looked at: the result is the filter with only
  \<open>pending_indent\<close> changed and the sink as the padding left it, whatever the input is.
\<close>

lemma owed_bytes_go_first:
  assumes "0 < pending_indent st"
  shows "\<exists>st1 s1 d.
           do_indentation st s (pending_indent st) = (st1, s1, pending_indent st1)
         \<and> st1 = st\<lparr>pending_indent := pending_indent st1\<rparr>
         \<and> delivered s1 = delivered s @ d
         \<and> d = take (length d) (indent_bytes (pending_indent st))
         \<and> (if d = indent_bytes (pending_indent st)
            then pending_indent st1 = 0 \<and> xsputn st s buf = xsputn_loop st1 s1 buf 0
            else xsputn st s buf = (st1, s1, 0))
         \<and> (\<exists>e. delivered (fst (snd (xsputn st s buf))) = delivered s @ d @ e)
         \<and> (unat (pending_indent st) \<le> 16 \<longrightarrow>
              indent_bytes (pending_indent st) = replicate (unat (pending_indent st)) (CHR 0x20))"
proof -
  obtain st1 s1 r where di: "do_indentation st s (pending_indent st) = (st1, s1, r)"
    by (cases "do_indentation st s (pending_indent st)")
  note res = do_indentation_result [OF di]
  from res(3) obtain d where d: "delivered s1 = delivered s @ d"
      "d = take (length d) (indent_bytes (pending_indent st))"
      "(r = 0) = (d = indent_bytes (pending_indent st))"
    by blast
  have pr: "pending_indent st1 = r" using res(1) by simp
  have x: "xsputn st s buf = (if r \<noteq> 0 then (st1, s1, 0) else xsputn_loop st1 s1 buf 0)"
    using assms di by (simp add: xsputn_def)
  have branch: "if d = indent_bytes (pending_indent st)
            then pending_indent st1 = 0 \<and> xsputn st s buf = xsputn_loop st1 s1 buf 0
            else xsputn st s buf = (st1, s1, 0)"
    using d(3) pr x by simp
  have after: "\<exists>e. delivered (fst (snd (xsputn st s buf))) = delivered s @ d @ e"
  proof (cases "r = 0")
    case False
    then show ?thesis using x d(1) by simp
  next
    case True
    obtain st' s' n where l: "xsputn_loop st1 s1 buf 0 = (st', s', n)"
      by (cases "xsputn_loop st1 s1 buf 0")
    from xsputn_loop_no_marks [OF l] obtain e where "delivered s' = delivered s1 @ e" by blast
    then show ?thesis using x True l d(1) by simp
  qed
  have small: "unat (pending_indent st) \<le> 16 \<longrightarrow>
              indent_bytes (pending_indent st) = replicate (unat (pending_indent st)) (CHR 0x20)"
    by (simp add: indent_bytes_small)
  have "do_indentation st s (pending_indent st) = (st1, s1, pending_indent st1)
         \<and> st1 = st\<lparr>pending_indent := pending_indent st1\<rparr>
         \<and> delivered s1 = delivered s @ d
         \<and> d = take (length d) (indent_bytes (pending_indent st))
         \<and> (if d = indent_bytes (pending_indent st)
            then pending_indent st1 = 0 \<and> xsputn st s buf = xsputn_loop st1 s1 buf 0
            else xsputn st s buf = (st1, s1, 0))
         \<and> (\<exists>e. delivered (fst (snd (xsputn st s buf))) = delivered s @ d @ e)
         \<and> (unat (pending_indent st) \<le> 16 \<longrightarrow>
              indent_bytes (pending_indent st) = replicate (unat (pending_indent st)) (CHR 0x20))"
    using di pr res(1) d(1,2) branch after small by simp
  then show ?thesis by blast
qed

lemma owed_bytes_go_first_at_four:
  "0 < pending_indent (fresh\<lparr>indent_level := 1, pending_indent := 4\<rparr>)
   \<and> (\<exists>st1 s1 d.
           do_indentation (fresh\<lparr>indent_level := 1, pending_indent := 4\<rparr>) (accept_only 1) 4
             = (st1, s1, pending_indent st1)
         \<and> delivered s1 = d
         \<and> d = take (length d) (indent_bytes 4)
         \<and> (if d = indent_bytes 4
            then pending_indent st1 = 0
               \<and> xsputn (fresh\<lparr>indent_level := 1, pending_indent := 4\<rparr>) (accept_only 1) ''x''
                   = xsputn_loop st1 s1 ''x'' 0
            else xsputn (fresh\<lparr>indent_level := 1, pending_indent := 4\<rparr>) (accept_only 1) ''x''
                   = (st1, s1, 0)))"
proof -
  have h: "0 < pending_indent (fresh\<lparr>indent_level := 1, pending_indent := 4\<rparr>)"
    by (simp add: fresh_def)
  from owed_bytes_go_first [OF h, of "accept_only 1" "''x''"]
  obtain st1 s1 d where
    "do_indentation (fresh\<lparr>indent_level := 1, pending_indent := 4\<rparr>) (accept_only 1)
        (pending_indent (fresh\<lparr>indent_level := 1, pending_indent := 4\<rparr>))
       = (st1, s1, pending_indent st1)"
    "delivered s1 = delivered (accept_only 1) @ d"
    "d = take (length d) (indent_bytes (pending_indent (fresh\<lparr>indent_level := 1, pending_indent := 4\<rparr>)))"
    "if d = indent_bytes (pending_indent (fresh\<lparr>indent_level := 1, pending_indent := 4\<rparr>))
            then pending_indent st1 = 0
               \<and> xsputn (fresh\<lparr>indent_level := 1, pending_indent := 4\<rparr>) (accept_only 1) ''x''
                   = xsputn_loop st1 s1 ''x'' 0
            else xsputn (fresh\<lparr>indent_level := 1, pending_indent := 4\<rparr>) (accept_only 1) ''x''
                   = (st1, s1, 0)"
    by blast
  then have "do_indentation (fresh\<lparr>indent_level := 1, pending_indent := 4\<rparr>) (accept_only 1) 4
             = (st1, s1, pending_indent st1)
         \<and> delivered s1 = d
         \<and> d = take (length d) (indent_bytes 4)
         \<and> (if d = indent_bytes 4
            then pending_indent st1 = 0
               \<and> xsputn (fresh\<lparr>indent_level := 1, pending_indent := 4\<rparr>) (accept_only 1) ''x''
                   = xsputn_loop st1 s1 ''x'' 0
            else xsputn (fresh\<lparr>indent_level := 1, pending_indent := 4\<rparr>) (accept_only 1) ''x''
                   = (st1, s1, 0))"
    by (simp add: accept_only_def)
  then show ?thesis using h by blast
qed

text \<open>
  The sink's state after the first \<open>sputn\<close> of \<open>do_indentation\<close> is a stage of the run:
  what the sink took of the first chunk is delivered, and stays in front of everything
  delivered later.
\<close>

lemma do_indentation_first_chunk:
  assumes "0 < p" and "do_indentation st s p = (st1, s1, r)"
    and "sputn s (take (unat (min p spaces_count)) spaces) = (s0, n0)"
  shows "\<exists>e. delivered s1 = delivered s0 @ e"
proof -
  obtain p' s' r' where l: "do_indentation_loop p s = (p', s', r')"
    by (cases "do_indentation_loop p s")
  from assms(2) l have eq: "s1 = s'" by (simp add: do_indentation_def)
  have unf: "do_indentation_loop p s =
      (if n0 \<noteq> unat (min p spaces_count) then (p, s0, p)
       else do_indentation_loop (p - min p spaces_count) s0)"
    using assms(1,3) by (subst do_indentation_loop.simps) (simp add: Let_def)
  show ?thesis
  proof (cases "n0 = unat (min p spaces_count)")
    case False
    then have "s' = s0" using unf l by simp
    then show ?thesis using eq by simp
  next
    case True
    then have "do_indentation_loop (p - min p spaces_count) s0 = (p', s', r')"
      using unf l by simp
    from do_indentation_loop_result [OF this] show ?thesis using eq by blast
  qed
qed

text \<open>
  C6 at a failing input. A filter at level 5 with \<open>indent_increment = 4\<close> writes "x" to
  a sink that takes sixteen bytes per call: the first chunk of seventeen is cut short,
  the call returns 0 and leaves \<open>pending_indent = 20\<close> with the filter still at the start
  of the line. The next write enters with \<open>pending_indent = 20\<close>, now on a sink that takes
  everything. With no new input it delivers the owed run and nothing else: sixteen
  spaces, a zero byte and three spaces, which are not the twenty spaces owed. With the
  input "x" the same twenty bytes come first. The order of events and the value
  returned are as the claim says; the bytes are not, for the reason seen at C2: the
  chunk is \<open>sizeof(spaces) = 17\<close> bytes long and ends in the zero of the string literal.
\<close>

theorem owed_indentation_of_twenty_has_a_zero_byte:
  "(case xsputn (fresh\<lparr>indent_level := 5\<rparr>) (accept_only 16) ''x'' of
      (st1, s1, n1) \<Rightarrow> (st1, delivered s1, n1))
     = (fresh\<lparr>indent_level := 5, pending_indent := 20\<rparr>, replicate 16 (CHR 0x20), 0)
   \<and> (case xsputn (fresh\<lparr>indent_level := 5, pending_indent := 20\<rparr>) accept_all [] of
      (st', s', n) \<Rightarrow> (pending_indent st', delivered s', n))
     = (0, replicate 16 (CHR 0x20) @ [CHR 0x00] @ replicate 3 (CHR 0x20), 0)
   \<and> replicate 16 (CHR 0x20) @ [CHR 0x00] @ replicate 3 (CHR 0x20) \<noteq> replicate 20 (CHR 0x20)
   \<and> (case xsputn (fresh\<lparr>indent_level := 5, pending_indent := 20\<rparr>) accept_all ''x'' of
      (st', s', n) \<Rightarrow> (take 20 (delivered s'), n))
     = (replicate 16 (CHR 0x20) @ [CHR 0x00] @ replicate 3 (CHR 0x20), 1)"
  by code_simp

subsection \<open>Blank lines and consecutive line ends\<close>

lemma eol_facts:
  "EndOfLine \<noteq> indent_code" "EndOfLine \<noteq> undent_code" "isspace EndOfLine"
  by (simp_all add: EndOfLine_def indent_code_def undent_code_def isspace_def)

lemma no_double_eol_no_eol:
  assumes "EndOfLine \<notin> set ys"
  shows "no_double_eol ys"
  using assms by (induction ys rule: no_double_eol.induct) auto

lemma no_double_eol_snoc:
  "no_double_eol (xs @ [c]) = (no_double_eol xs \<and> \<not> (ends_with_eol xs \<and> c = EndOfLine))"
  by (induction xs rule: no_double_eol.induct) (auto simp: ends_with_eol_def)

lemma no_double_eol_append_no_eol:
  assumes "EndOfLine \<notin> set ys"
  shows "no_double_eol (xs @ ys) = no_double_eol xs"
  using assms
proof (induction ys arbitrary: xs)
  case Nil
  then show ?case by simp
next
  case (Cons y ys)
  have "no_double_eol (xs @ y # ys) = no_double_eol ((xs @ [y]) @ ys)" by simp
  also have "\<dots> = no_double_eol (xs @ [y])" using Cons by (intro Cons.IH) simp
  also have "\<dots> = no_double_eol xs" using Cons.prems by (auto simp: no_double_eol_snoc)
  finally show ?case .
qed

lemma ends_with_eol_append:
  assumes "ys \<noteq> []"
  shows "ends_with_eol (xs @ ys) = ends_with_eol ys"
  using assms by (simp add: ends_with_eol_def)

lemma eol_not_padding: "EndOfLine \<notin> set (indent_bytes p)"
  using set_indent_bytes [of p] by (auto simp: EndOfLine_def)

lemma do_indentation_loop_accept_all:
  assumes "room s = (\<lambda>i. None)"
  shows "\<exists>s'. do_indentation_loop p s = (0, s', 0) \<and> room s' = (\<lambda>i. None)
            \<and> delivered s' = delivered s @ indent_bytes p"
  using assms
proof (induction p s rule: do_indentation_loop.induct)
  case (1 p s)
  show ?case
  proof (cases "0 < p")
    case False
    then have p0: "p = 0" by (simp add: word_gt_0)
    show ?thesis using p0 "1.prems"
      by (subst do_indentation_loop.simps) (simp add: indent_bytes.simps)
  next
    case True
    define m where "m = min p spaces_count"
    define chunk where "chunk = take (unat m) spaces"
    define s1 where "s1 = s\<lparr>delivered := delivered s @ chunk, calls := Suc (calls s)\<rparr>"
    have sp: "sputn s chunk = (s1, length chunk)"
      using "1.prems" by (simp add: sputn_accept_all s1_def)
    have lc: "length chunk = unat m"
      using True by (simp add: chunk_def m_def chunk_facts length_spaces)
    have ib: "indent_bytes p = chunk @ indent_bytes (p - m)"
      using True by (subst indent_bytes.simps) (simp add: Let_def m_def chunk_def)
    have unf: "do_indentation_loop p s = do_indentation_loop (p - m) s1"
      using True sp lc by (subst do_indentation_loop.simps) (simp add: Let_def m_def chunk_def)
    have r1: "room s1 = (\<lambda>i. None)" using "1.prems" by (simp add: s1_def)
    have "\<exists>s'. do_indentation_loop (p - m) s1 = (0, s', 0) \<and> room s' = (\<lambda>i. None)
            \<and> delivered s' = delivered s1 @ indent_bytes (p - m)"
      using "1.IH" [of m "sputn s chunk" s1 "length chunk"] True sp lc r1
      by (simp add: m_def chunk_def)
    then show ?thesis using unf ib by (auto simp: s1_def)
  qed
qed

lemma do_indentation_accept_all:
  assumes "room s = (\<lambda>i. None)"
  shows "\<exists>s'. do_indentation st s p = (st\<lparr>pending_indent := 0\<rparr>, s', 0) \<and> room s' = (\<lambda>i. None)
            \<and> delivered s' = delivered s @ indent_bytes p"
  using do_indentation_loop_accept_all [OF assms, of p]
  by (auto simp: do_indentation_def)

lemma xsputn_loop_blank_lines:
  assumes "at_start_of_line st"
  shows "xsputn_loop st s (replicate k EndOfLine @ cs) idx = xsputn_loop st s cs (idx + k)"
  using assms by (induction k arbitrary: idx) (simp_all add: eol_facts)

lemma filter_write_loop_blank_lines:
  assumes "at_start_of_line st"
  shows "filter_write_loop st s (replicate k EndOfLine @ cs) idx = filter_write_loop st s cs (idx + k)"
  using assms by (induction k arbitrary: idx) (simp_all add: eol_facts)

lemma indent_keeps_pending:
  "pending_indent (indent st) = pending_indent st"
  "pending_indent (undent st) = pending_indent st"
  by (simp_all add: indent_def undent_def)

lemma xsputn_loop_accept_all:
  assumes "room s = (\<lambda>i. None)" and "no_double_eol (delivered s)"
    and "ends_with_eol (delivered s) \<longrightarrow> at_start_of_line st"
  shows "\<exists>st' s'. xsputn_loop st s buf idx = (st', s', idx + length buf)
           \<and> room s' = (\<lambda>i. None) \<and> no_double_eol (delivered s')
           \<and> (ends_with_eol (delivered s') \<longrightarrow> at_start_of_line st')
           \<and> (pending_indent st = 0 \<longrightarrow> pending_indent st' = 0)"
  using assms
proof (induction buf arbitrary: st s idx)
  case Nil
  then show ?case by simp
next
  case (Cons c cs)
  consider (ind) "c = indent_code" | (und) "c \<noteq> indent_code" "c = undent_code"
    | (skip) "c \<noteq> indent_code" "c \<noteq> undent_code" "at_start_of_line st \<and> isspace c"
    | (emit) "c \<noteq> indent_code" "c \<noteq> undent_code" "\<not> (at_start_of_line st \<and> isspace c)"
    by blast
  then show ?case
  proof cases
    case ind
    have "ends_with_eol (delivered s) \<longrightarrow> at_start_of_line (indent st)"
      using Cons.prems(3) by (simp add: indent_keeps_line_state)
    from Cons.IH [OF Cons.prems(1,2) this, of "Suc idx"] show ?thesis
      using ind by (simp add: indent_keeps_pending)
  next
    case und
    have "ends_with_eol (delivered s) \<longrightarrow> at_start_of_line (undent st)"
      using Cons.prems(3) by (simp add: indent_keeps_line_state)
    from Cons.IH [OF Cons.prems(1,2) this, of "Suc idx"] show ?thesis
      using und by (simp add: indent_keeps_pending)
  next
    case skip
    from Cons.IH [OF Cons.prems, of "Suc idx"] show ?thesis
      using skip by simp
  next
    case emit
    show ?thesis
    proof (cases "at_start_of_line st")
      case True
      then have ns: "\<not> isspace c" using emit(3) by simp
      then have ce: "c \<noteq> EndOfLine" using eol_facts(3) by auto
      define p where "p = indent_level st * indent_increment st"
      from do_indentation_accept_all [OF Cons.prems(1), of st p] obtain s1 where
        s1: "do_indentation st s p = (st\<lparr>pending_indent := 0\<rparr>, s1, 0)" "room s1 = (\<lambda>i. None)"
          "delivered s1 = delivered s @ indent_bytes p" by blast
      define s2 where "s2 = s1\<lparr>delivered := delivered s1 @ [c], calls := Suc (calls s1)\<rparr>"
      define st2 where "st2 = st\<lparr>pending_indent := 0, at_start_of_line := False\<rparr>"
      have sp: "sputn s1 [c] = (s2, 1)" using s1(2) by (simp add: sputn_accept_all s2_def)
      have di: "(if at_start_of_line st
          then do_indentation st s (indent_level st * indent_increment st)
          else (st, s, 0)) = (st\<lparr>pending_indent := 0\<rparr>, s1, 0)"
        using True s1(1) by (simp add: p_def)
      have unf: "xsputn_loop st s (c # cs) idx = xsputn_loop st2 s2 cs (Suc idx)"
        using xsputn_loop_emit [OF emit di sp, of cs idx] ce by (simp add: st2_def)
      have d2: "delivered s2 = delivered s @ (indent_bytes p @ [c])" using s1(3) by (simp add: s2_def)
      have "EndOfLine \<notin> set (indent_bytes p @ [c])" using eol_not_padding [of p] ce by simp
      then have "no_double_eol (delivered s @ (indent_bytes p @ [c])) = no_double_eol (delivered s)"
        by (rule no_double_eol_append_no_eol)
      then have nd: "no_double_eol (delivered s2)"
        using Cons.prems(2) d2 by simp
      have ne: "\<not> ends_with_eol (delivered s2)" using ce d2 by (simp add: ends_with_eol_def)
      have r2: "room s2 = (\<lambda>i. None)" using s1(2) by (simp add: s2_def)
      from Cons.IH [OF r2 nd, of st2 "Suc idx"] ne show ?thesis
        using unf by (auto simp: st2_def)
    next
      case False
      then have ne0: "\<not> ends_with_eol (delivered s)" using Cons.prems(3) by auto
      define s2 where "s2 = s\<lparr>delivered := delivered s @ [c], calls := Suc (calls s)\<rparr>"
      define st2 where "st2 = st\<lparr>at_start_of_line := (c = EndOfLine)\<rparr>"
      have sp: "sputn s [c] = (s2, 1)" using Cons.prems(1) by (simp add: sputn_accept_all s2_def)
      have di: "(if at_start_of_line st
          then do_indentation st s (indent_level st * indent_increment st)
          else (st, s, 0)) = (st, s, 0)"
        using False by simp
      have unf: "xsputn_loop st s (c # cs) idx = xsputn_loop st2 s2 cs (Suc idx)"
        using xsputn_loop_emit [OF emit di sp, of cs idx] by (simp add: st2_def)
      have nd: "no_double_eol (delivered s2)"
        using Cons.prems(2) ne0 by (simp add: s2_def no_double_eol_snoc)
      have e2: "ends_with_eol (delivered s2) \<longrightarrow> at_start_of_line st2"
        by (simp add: s2_def st2_def ends_with_eol_def)
      have r2: "room s2 = (\<lambda>i. None)" using Cons.prems(1) by (simp add: s2_def)
      from Cons.IH [OF r2 nd e2, of "Suc idx"] show ?thesis
        using unf by (auto simp: st2_def)
    qed
  qed
qed

lemma sputc_accept_all:
  assumes "room s = (\<lambda>i. None)"
  shows "sputc s c = (s\<lparr>delivered := delivered s @ [c], calls := Suc (calls s)\<rparr>, True)"
  using assms by (simp add: sputc_def sputn_accept_all)

lemma put_spaces_accept_all:
  assumes "room s = (\<lambda>i. None)"
  shows "\<exists>s'. put_spaces k s = (s', True) \<and> room s' = (\<lambda>i. None)
            \<and> delivered s' = delivered s @ replicate k (CHR 0x20)"
  using assms
proof (induction k arbitrary: s)
  case 0
  then show ?case by simp
next
  case (Suc k)
  define s1 where "s1 = s\<lparr>delivered := delivered s @ [CHR 0x20], calls := Suc (calls s)\<rparr>"
  have sc: "sputc s (CHR 0x20) = (s1, True)" using Suc.prems by (simp add: sputc_accept_all s1_def)
  have r1: "room s1 = (\<lambda>i. None)" using Suc.prems by (simp add: s1_def)
  from Suc.IH [OF r1] obtain s' where
    s': "put_spaces k s1 = (s', True)" "room s' = (\<lambda>i. None)"
      "delivered s' = delivered s1 @ replicate k (CHR 0x20)" by blast
  have "put_spaces (Suc k) s = (s', True)" using sc s'(1) by simp
  moreover have "delivered s' = delivered s @ replicate (Suc k) (CHR 0x20)"
    using s'(3) by (simp add: s1_def)
  ultimately show ?case using s'(2) by blast
qed

lemma filter_write_loop_accept_all:
  assumes "room s = (\<lambda>i. None)" and "no_double_eol (delivered s)"
    and "ends_with_eol (delivered s) \<longrightarrow> at_start_of_line st"
  shows "\<exists>st' s'. filter_write_loop st s buf idx = (st', s', idx + length buf)
           \<and> room s' = (\<lambda>i. None) \<and> no_double_eol (delivered s')
           \<and> (ends_with_eol (delivered s') \<longrightarrow> at_start_of_line st')"
  using assms
proof (induction buf arbitrary: st s idx)
  case Nil
  then show ?case by simp
next
  case (Cons c cs)
  consider (ind) "c = indent_code" | (und) "c \<noteq> indent_code" "c = undent_code"
    | (skip) "c \<noteq> indent_code" "c \<noteq> undent_code" "at_start_of_line st \<and> isspace c"
    | (emit) "c \<noteq> indent_code" "c \<noteq> undent_code" "\<not> (at_start_of_line st \<and> isspace c)"
    by blast
  then show ?case
  proof cases
    case ind
    have "ends_with_eol (delivered s) \<longrightarrow> at_start_of_line (indent st)"
      using Cons.prems(3) by (simp add: indent_keeps_line_state)
    from Cons.IH [OF Cons.prems(1,2) this, of "Suc idx"] show ?thesis
      using ind by simp
  next
    case und
    have "ends_with_eol (delivered s) \<longrightarrow> at_start_of_line (undent st)"
      using Cons.prems(3) by (simp add: indent_keeps_line_state)
    from Cons.IH [OF Cons.prems(1,2) this, of "Suc idx"] show ?thesis
      using und by simp
  next
    case skip
    from Cons.IH [OF Cons.prems, of "Suc idx"] show ?thesis
      using skip by simp
  next
    case emit
    show ?thesis
    proof (cases "at_start_of_line st")
      case True
      then have ns: "\<not> isspace c" using emit(3) by simp
      then have ce: "c \<noteq> EndOfLine" using eol_facts(3) by auto
      define k where "k = unat (indent_level st * indent_increment st)"
      from put_spaces_accept_all [OF Cons.prems(1), of k] obtain s1 where
        s1: "put_spaces k s = (s1, True)" "room s1 = (\<lambda>i. None)"
          "delivered s1 = delivered s @ replicate k (CHR 0x20)" by blast
      define s2 where "s2 = s1\<lparr>delivered := delivered s1 @ [c], calls := Suc (calls s1)\<rparr>"
      define st2 where "st2 = st\<lparr>at_start_of_line := False\<rparr>"
      have sc: "sputc s1 c = (s2, True)" using s1(2) by (simp add: sputc_accept_all s2_def)
      have ps: "(if at_start_of_line st
          then put_spaces (unat (indent_level st * indent_increment st)) s
          else (s, True)) = (s1, True)"
        using True s1(1) by (simp add: k_def)
      have unf: "filter_write_loop st s (c # cs) idx = filter_write_loop st2 s2 cs (Suc idx)"
        using filter_write_loop_emit [OF emit ps sc, of cs idx] ce by (simp add: st2_def)
      have d2: "delivered s2 = delivered s @ (replicate k (CHR 0x20) @ [c])"
        using s1(3) by (simp add: s2_def)
      have "EndOfLine \<notin> set (replicate k (CHR 0x20) @ [c])"
        using ce by (auto simp: EndOfLine_def)
      then have "no_double_eol (delivered s @ (replicate k (CHR 0x20) @ [c]))
                   = no_double_eol (delivered s)"
        by (rule no_double_eol_append_no_eol)
      then have nd: "no_double_eol (delivered s2)"
        using Cons.prems(2) d2 by simp
      have ne: "\<not> ends_with_eol (delivered s2)" using ce d2 by (simp add: ends_with_eol_def)
      have r2: "room s2 = (\<lambda>i. None)" using s1(2) by (simp add: s2_def)
      from Cons.IH [OF r2 nd, of st2 "Suc idx"] ne show ?thesis
        using unf by auto
    next
      case False
      then have ne0: "\<not> ends_with_eol (delivered s)" using Cons.prems(3) by auto
      define s2 where "s2 = s\<lparr>delivered := delivered s @ [c], calls := Suc (calls s)\<rparr>"
      define st2 where "st2 = st\<lparr>at_start_of_line := (c = EndOfLine)\<rparr>"
      have sc: "sputc s c = (s2, True)" using Cons.prems(1) by (simp add: sputc_accept_all s2_def)
      have ps: "(if at_start_of_line st
          then put_spaces (unat (indent_level st * indent_increment st)) s
          else (s, True)) = (s, True)"
        using False by simp
      have unf: "filter_write_loop st s (c # cs) idx = filter_write_loop st2 s2 cs (Suc idx)"
        using filter_write_loop_emit [OF emit ps sc, of cs idx] by (simp add: st2_def)
      have nd: "no_double_eol (delivered s2)"
        using Cons.prems(2) ne0 by (simp add: s2_def no_double_eol_snoc)
      have e2: "ends_with_eol (delivered s2) \<longrightarrow> at_start_of_line st2"
        by (simp add: s2_def st2_def ends_with_eol_def)
      have r2: "room s2 = (\<lambda>i. None)" using Cons.prems(1) by (simp add: s2_def)
      from Cons.IH [OF r2 nd e2, of "Suc idx"] show ?thesis
        using unf by auto
    qed
  qed
qed

text \<open>
  C9. \<open>EndOfLine\<close> is a whitespace byte. At the start of a line, on any sink, it is passed
  over with the filter and the sink unchanged, so a run of line ends there (blank lines)
  leaves no trace. On a sink that takes everything, with no indentation pending, a
  write consumes all its input and keeps this invariant: the bytes delivered so far
  hold no two consecutive \<open>EndOfLine\<close> bytes, and when the last of them is \<open>EndOfLine\<close>
  the filter is at the start of a line. A new filter on an empty sink satisfies it, so
  the output of any sequence of writes never has two line ends in a row. The same holds
  for the variant on the chaining buffer.
\<close>

theorem blank_lines_are_dropped:
  "isspace EndOfLine
   \<and> (at_start_of_line st \<longrightarrow>
        xsputn_loop st s (replicate k EndOfLine @ cs) idx = xsputn_loop st s cs (idx + k))
   \<and> (at_start_of_line st \<and> pending_indent st = 0 \<longrightarrow>
        xsputn st s (replicate k EndOfLine) = (st, s, k))
   \<and> (at_start_of_line fs \<longrightarrow>
        filter_write_loop fs s (replicate k EndOfLine @ cs) idx
          = filter_write_loop fs s cs (idx + k))
   \<and> (at_start_of_line fs \<longrightarrow> filter_write fs s (replicate k EndOfLine) = (fs, s, k))
   \<and> (room s = (\<lambda>i. None) \<and> pending_indent st = 0 \<and> no_double_eol (delivered s)
        \<and> (ends_with_eol (delivered s) \<longrightarrow> at_start_of_line st) \<longrightarrow>
        (\<exists>st' s'. xsputn st s buf = (st', s', length buf)
           \<and> room s' = (\<lambda>i. None) \<and> pending_indent st' = 0 \<and> no_double_eol (delivered s')
           \<and> (ends_with_eol (delivered s') \<longrightarrow> at_start_of_line st')))
   \<and> (room s = (\<lambda>i. None) \<and> no_double_eol (delivered s)
        \<and> (ends_with_eol (delivered s) \<longrightarrow> at_start_of_line fs) \<longrightarrow>
        (\<exists>fs' s'. filter_write fs s buf = (fs', s', length buf)
           \<and> room s' = (\<lambda>i. None) \<and> no_double_eol (delivered s')
           \<and> (ends_with_eol (delivered s') \<longrightarrow> at_start_of_line fs')))
   \<and> no_double_eol (delivered (fst (snd (xsputn fresh accept_all buf))))
   \<and> no_double_eol (delivered (fst (snd (filter_write fresh_chained accept_all buf))))"
proof -
  have a: "at_start_of_line st \<longrightarrow>
        xsputn_loop st s (replicate k EndOfLine @ cs) idx = xsputn_loop st s cs (idx + k)"
    by (simp add: xsputn_loop_blank_lines)
  have b: "at_start_of_line st \<and> pending_indent st = 0 \<longrightarrow>
        xsputn st s (replicate k EndOfLine) = (st, s, k)"
    using xsputn_loop_blank_lines [of st s k "[]" 0] by (simp add: xsputn_def)
  have c: "at_start_of_line fs \<longrightarrow>
        filter_write_loop fs s (replicate k EndOfLine @ cs) idx
          = filter_write_loop fs s cs (idx + k)"
    by (simp add: filter_write_loop_blank_lines)
  have d: "at_start_of_line fs \<longrightarrow> filter_write fs s (replicate k EndOfLine) = (fs, s, k)"
    using filter_write_loop_blank_lines [of fs s k "[]" 0] by (simp add: filter_write_def)
  have e: "room s = (\<lambda>i. None) \<and> pending_indent st = 0 \<and> no_double_eol (delivered s)
        \<and> (ends_with_eol (delivered s) \<longrightarrow> at_start_of_line st) \<longrightarrow>
        (\<exists>st' s'. xsputn st s buf = (st', s', length buf)
           \<and> room s' = (\<lambda>i. None) \<and> pending_indent st' = 0 \<and> no_double_eol (delivered s')
           \<and> (ends_with_eol (delivered s') \<longrightarrow> at_start_of_line st'))"
    using xsputn_loop_accept_all [of s st buf 0] by (auto simp: xsputn_def)
  have f: "room s = (\<lambda>i. None) \<and> no_double_eol (delivered s)
        \<and> (ends_with_eol (delivered s) \<longrightarrow> at_start_of_line fs) \<longrightarrow>
        (\<exists>fs' s'. filter_write fs s buf = (fs', s', length buf)
           \<and> room s' = (\<lambda>i. None) \<and> no_double_eol (delivered s')
           \<and> (ends_with_eol (delivered s') \<longrightarrow> at_start_of_line fs'))"
    using filter_write_loop_accept_all [of s fs buf 0] by (auto simp: filter_write_def)
  have g: "no_double_eol (delivered (fst (snd (xsputn fresh accept_all buf))))"
    using xsputn_loop_accept_all [of accept_all fresh buf 0]
    by (auto simp: xsputn_def fresh_def accept_all_def ends_with_eol_def)
  have h: "no_double_eol (delivered (fst (snd (filter_write fresh_chained accept_all buf))))"
    using filter_write_loop_accept_all [of accept_all fresh_chained buf 0]
    by (auto simp: filter_write_def fresh_chained_def accept_all_def ends_with_eol_def)
  show ?thesis using a b c d e f g h eol_facts(3) by blast
qed

theorem blank_lines_are_dropped_witness:
  "at_start_of_line fresh \<and> pending_indent fresh = 0 \<and> at_start_of_line fresh_chained
   \<and> room accept_all = (\<lambda>i. None) \<and> no_double_eol (delivered accept_all)
   \<and> xsputn fresh accept_all (replicate 2 EndOfLine) = (fresh, accept_all, 2)
   \<and> filter_write fresh_chained accept_all (replicate 2 EndOfLine) = (fresh_chained, accept_all, 2)
   \<and> (\<exists>st' s'. xsputn fresh accept_all ''a\<newline>\<newline>\<newline>b'' = (st', s', 5)
          \<and> no_double_eol (delivered s'))
   \<and> (\<exists>fs' s'. filter_write fresh_chained accept_all ''a\<newline>\<newline>\<newline>b'' = (fs', s', 5)
          \<and> no_double_eol (delivered s'))"
proof -
  have h: "at_start_of_line fresh" "pending_indent fresh = 0" "at_start_of_line fresh_chained"
    "room accept_all = (\<lambda>i. None)" "no_double_eol (delivered accept_all)"
    by (simp_all add: fresh_def fresh_chained_def accept_all_def)
  have l: "length ''a\<newline>\<newline>\<newline>b'' = 5" by simp
  show ?thesis
    using h
      blank_lines_are_dropped [where st = fresh and fs = fresh_chained and s = accept_all
        and k = 2 and buf = "''a\<newline>\<newline>\<newline>b''"]
    unfolding l by blast
qed

subsection \<open>Content bytes are re-indented\<close>

lemma reindent_line_simps:
  "reindent_line n [] = []"
  "isspace c \<Longrightarrow> reindent_line n (c # l) = reindent_line n l"
  "\<not> isspace c \<Longrightarrow> reindent_line n (c # l) = replicate n (CHR 0x20) @ c # l"
  by (simp_all add: reindent_line_def)

lemma reindent_from_lines:
  "reindent_from True n buf = concat (map (reindent_line n) (split_lines buf))
   \<and> reindent_from False n buf =
       (case split_lines buf of [] \<Rightarrow> [] | l # ls \<Rightarrow> l @ concat (map (reindent_line n) ls))"
proof (induction buf)
  case Nil
  then show ?case by simp
next
  case (Cons c cs)
  show ?case
  proof (cases "c = EndOfLine")
    case True
    then show ?thesis using Cons eol_facts(3) by (simp add: reindent_line_simps)
  next
    case False
    show ?thesis
    proof (cases "split_lines cs")
      case Nil
      then show ?thesis using Cons False
        by (cases "isspace c") (simp_all add: reindent_line_simps)
    next
      case (Cons l ls)
      then show ?thesis using \<open>reindent_from True n cs = concat (map (reindent_line n) (split_lines cs)) \<and>
         reindent_from False n cs =
         (case split_lines cs of [] \<Rightarrow> [] | l # ls \<Rightarrow> l @ concat (map (reindent_line n) ls))\<close> False
        by (cases "isspace c") (simp_all add: reindent_line_simps)
    qed
  qed
qed

lemma reindent_from_start: "reindent_from True n buf = reindented n buf"
  by (simp add: reindent_from_lines reindented_def)

lemma xsputn_loop_content:
  assumes "room s = (\<lambda>i. None)" and "list_all (\<lambda>c. \<not> is_mark c) buf"
    and "unat (indent_level st * indent_increment st) = n" and "n \<le> 16"
  shows "\<exists>st' s'. xsputn_loop st s buf idx = (st', s', idx + length buf)
           \<and> delivered s' = delivered s @ reindent_from (at_start_of_line st) n buf"
  using assms
proof (induction buf arbitrary: st s idx)
  case Nil
  then show ?case by simp
next
  case (Cons c cs)
  from Cons.prems(2) have nm: "c \<noteq> indent_code" "c \<noteq> undent_code"
    and rest: "list_all (\<lambda>c. \<not> is_mark c) cs"
    by (simp_all add: is_mark_def)
  show ?case
  proof (cases "at_start_of_line st \<and> isspace c")
    case True
    from Cons.IH [OF Cons.prems(1) rest Cons.prems(3,4), of "Suc idx"] show ?thesis
      using True nm by simp
  next
    case emit: False
    show ?thesis
    proof (cases "at_start_of_line st")
      case True
      then have ns: "\<not> isspace c" using emit by simp
      then have ce: "c \<noteq> EndOfLine" using eol_facts(3) by auto
      define p where "p = indent_level st * indent_increment st"
      have pn: "unat p = n" using Cons.prems(3) by (simp add: p_def)
      from do_indentation_accept_all [OF Cons.prems(1), of st p] obtain s1 where
        s1: "do_indentation st s p = (st\<lparr>pending_indent := 0\<rparr>, s1, 0)" "room s1 = (\<lambda>i. None)"
          "delivered s1 = delivered s @ indent_bytes p" by blast
      have ib: "indent_bytes p = replicate n (CHR 0x20)"
        using indent_bytes_small [of p] pn Cons.prems(4) by simp
      define s2 where "s2 = s1\<lparr>delivered := delivered s1 @ [c], calls := Suc (calls s1)\<rparr>"
      define st2 where "st2 = st\<lparr>pending_indent := 0, at_start_of_line := False\<rparr>"
      have sp: "sputn s1 [c] = (s2, 1)" using s1(2) by (simp add: sputn_accept_all s2_def)
      have di: "(if at_start_of_line st
          then do_indentation st s (indent_level st * indent_increment st)
          else (st, s, 0)) = (st\<lparr>pending_indent := 0\<rparr>, s1, 0)"
        using True s1(1) by (simp add: p_def)
      have unf: "xsputn_loop st s (c # cs) idx = xsputn_loop st2 s2 cs (Suc idx)"
        using xsputn_loop_emit [OF nm emit di sp, of cs idx] ce by (simp add: st2_def)
      have r2: "room s2 = (\<lambda>i. None)" using s1(2) by (simp add: s2_def)
      have l2: "unat (indent_level st2 * indent_increment st2) = n"
        using Cons.prems(3) by (simp add: st2_def)
      from Cons.IH [OF r2 rest l2 Cons.prems(4), of "Suc idx"] obtain st' s' where
        r: "xsputn_loop st2 s2 cs (Suc idx) = (st', s', Suc idx + length cs)"
           "delivered s' = delivered s2 @ reindent_from (at_start_of_line st2) n cs" by blast
      have "delivered s' = delivered s @ reindent_from (at_start_of_line st) n (c # cs)"
        using r(2) True ns s1(3) ib by (simp add: s2_def st2_def)
      then show ?thesis using unf r(1) by simp
    next
      case False
      define s2 where "s2 = s\<lparr>delivered := delivered s @ [c], calls := Suc (calls s)\<rparr>"
      define st2 where "st2 = st\<lparr>at_start_of_line := (c = EndOfLine)\<rparr>"
      have sp: "sputn s [c] = (s2, 1)" using Cons.prems(1) by (simp add: sputn_accept_all s2_def)
      have di: "(if at_start_of_line st
          then do_indentation st s (indent_level st * indent_increment st)
          else (st, s, 0)) = (st, s, 0)"
        using False by simp
      have unf: "xsputn_loop st s (c # cs) idx = xsputn_loop st2 s2 cs (Suc idx)"
        using xsputn_loop_emit [OF nm emit di sp, of cs idx] by (simp add: st2_def)
      have r2: "room s2 = (\<lambda>i. None)" using Cons.prems(1) by (simp add: s2_def)
      have l2: "unat (indent_level st2 * indent_increment st2) = n"
        using Cons.prems(3) by (simp add: st2_def)
      from Cons.IH [OF r2 rest l2 Cons.prems(4), of "Suc idx"] obtain st' s' where
        r: "xsputn_loop st2 s2 cs (Suc idx) = (st', s', Suc idx + length cs)"
           "delivered s' = delivered s2 @ reindent_from (at_start_of_line st2) n cs" by blast
      have "delivered s' = delivered s @ reindent_from (at_start_of_line st) n (c # cs)"
        using r(2) False by (simp add: s2_def st2_def)
      then show ?thesis using unf r(1) by simp
    qed
  qed
qed

lemma filter_write_loop_content:
  assumes "room s = (\<lambda>i. None)" and "list_all (\<lambda>c. \<not> is_mark c) buf"
    and "unat (indent_level st * indent_increment st) = n"
  shows "\<exists>st' s'. filter_write_loop st s buf idx = (st', s', idx + length buf)
           \<and> delivered s' = delivered s @ reindent_from (at_start_of_line st) n buf"
  using assms
proof (induction buf arbitrary: st s idx)
  case Nil
  then show ?case by simp
next
  case (Cons c cs)
  from Cons.prems(2) have nm: "c \<noteq> indent_code" "c \<noteq> undent_code"
    and rest: "list_all (\<lambda>c. \<not> is_mark c) cs"
    by (simp_all add: is_mark_def)
  show ?case
  proof (cases "at_start_of_line st \<and> isspace c")
    case True
    from Cons.IH [OF Cons.prems(1) rest Cons.prems(3), of "Suc idx"] show ?thesis
      using True nm by simp
  next
    case emit: False
    show ?thesis
    proof (cases "at_start_of_line st")
      case True
      then have ns: "\<not> isspace c" using emit by simp
      then have ce: "c \<noteq> EndOfLine" using eol_facts(3) by auto
      from put_spaces_accept_all [OF Cons.prems(1), of n] obtain s1 where
        s1: "put_spaces n s = (s1, True)" "room s1 = (\<lambda>i. None)"
          "delivered s1 = delivered s @ replicate n (CHR 0x20)" by blast
      define s2 where "s2 = s1\<lparr>delivered := delivered s1 @ [c], calls := Suc (calls s1)\<rparr>"
      define st2 where "st2 = st\<lparr>at_start_of_line := False\<rparr>"
      have sc: "sputc s1 c = (s2, True)" using s1(2) by (simp add: sputc_accept_all s2_def)
      have ps: "(if at_start_of_line st
          then put_spaces (unat (indent_level st * indent_increment st)) s
          else (s, True)) = (s1, True)"
        using True s1(1) Cons.prems(3) by simp
      have unf: "filter_write_loop st s (c # cs) idx = filter_write_loop st2 s2 cs (Suc idx)"
        using filter_write_loop_emit [OF nm emit ps sc, of cs idx] ce by (simp add: st2_def)
      have r2: "room s2 = (\<lambda>i. None)" using s1(2) by (simp add: s2_def)
      have l2: "unat (indent_level st2 * indent_increment st2) = n"
        using Cons.prems(3) by (simp add: st2_def)
      from Cons.IH [OF r2 rest l2, of "Suc idx"] obtain st' s' where
        r: "filter_write_loop st2 s2 cs (Suc idx) = (st', s', Suc idx + length cs)"
           "delivered s' = delivered s2 @ reindent_from (at_start_of_line st2) n cs" by blast
      have "delivered s' = delivered s @ reindent_from (at_start_of_line st) n (c # cs)"
        using r(2) True ns s1(3) by (simp add: s2_def st2_def)
      then show ?thesis using unf r(1) by simp
    next
      case False
      define s2 where "s2 = s\<lparr>delivered := delivered s @ [c], calls := Suc (calls s)\<rparr>"
      define st2 where "st2 = st\<lparr>at_start_of_line := (c = EndOfLine)\<rparr>"
      have sc: "sputc s c = (s2, True)" using Cons.prems(1) by (simp add: sputc_accept_all s2_def)
      have ps: "(if at_start_of_line st
          then put_spaces (unat (indent_level st * indent_increment st)) s
          else (s, True)) = (s, True)"
        using False by simp
      have unf: "filter_write_loop st s (c # cs) idx = filter_write_loop st2 s2 cs (Suc idx)"
        using filter_write_loop_emit [OF nm emit ps sc, of cs idx] by (simp add: st2_def)
      have r2: "room s2 = (\<lambda>i. None)" using Cons.prems(1) by (simp add: s2_def)
      have l2: "unat (indent_level st2 * indent_increment st2) = n"
        using Cons.prems(3) by (simp add: st2_def)
      from Cons.IH [OF r2 rest l2, of "Suc idx"] obtain st' s' where
        r: "filter_write_loop st2 s2 cs (Suc idx) = (st', s', Suc idx + length cs)"
           "delivered s' = delivered s2 @ reindent_from (at_start_of_line st2) n cs" by blast
      have "delivered s' = delivered s @ reindent_from (at_start_of_line st) n (c # cs)"
        using r(2) False by (simp add: s2_def st2_def)
      then show ?thesis using unf r(1) by simp
    qed
  qed
qed

text \<open>
  On a sink that takes everything, a write of content bytes only that starts at the
  start of a line with nothing pending delivers the input re-indented by
  \<open>indent_level * indent_increment\<close> columns: in the variant on the chaining buffer for
  every indentation, in the direct variant for indentations of at most sixteen columns.
\<close>

lemma content_is_reindented:
  assumes "room s = (\<lambda>i. None)" and "list_all (\<lambda>c. \<not> is_mark c) buf"
  shows "at_start_of_line fs \<Longrightarrow>
           \<exists>fs' s'. filter_write fs s buf = (fs', s', length buf)
             \<and> delivered s' = delivered s
                  @ reindented (unat (indent_level fs * indent_increment fs)) buf"
    and "at_start_of_line st \<Longrightarrow> pending_indent st = 0 \<Longrightarrow>
         unat (indent_level st * indent_increment st) \<le> 16 \<Longrightarrow>
           \<exists>st' s'. xsputn st s buf = (st', s', length buf)
             \<and> delivered s' = delivered s
                  @ reindented (unat (indent_level st * indent_increment st)) buf"
proof -
  show "at_start_of_line fs \<Longrightarrow>
           \<exists>fs' s'. filter_write fs s buf = (fs', s', length buf)
             \<and> delivered s' = delivered s
                  @ reindented (unat (indent_level fs * indent_increment fs)) buf"
    using filter_write_loop_content [OF assms refl, of fs 0]
    by (simp add: filter_write_def reindent_from_start)
  show "at_start_of_line st \<Longrightarrow> pending_indent st = 0 \<Longrightarrow>
         unat (indent_level st * indent_increment st) \<le> 16 \<Longrightarrow>
           \<exists>st' s'. xsputn st s buf = (st', s', length buf)
             \<and> delivered s' = delivered s
                  @ reindented (unat (indent_level st * indent_increment st)) buf"
    using xsputn_loop_content [OF assms refl, of st 0]
    by (simp add: xsputn_def reindent_from_start)
qed

subsection \<open>The chained variant on a sink that never refuses a byte\<close>

lemma sputc_never_refused:
  assumes "\<forall>i. room s i \<noteq> Some 0"
  shows "sputc s c = (s\<lparr>delivered := delivered s @ [c], calls := Suc (calls s)\<rparr>, True)"
proof (cases "room s (calls s)")
  case None
  then show ?thesis by (simp add: sputc_def sputn_def)
next
  case (Some k)
  with assms have "k \<noteq> 0" by metis
  then have "min k (Suc 0) = Suc 0" by simp
  with Some show ?thesis by (simp add: sputc_def sputn_def)
qed

lemma put_spaces_never_refused:
  assumes "\<forall>i. room s i \<noteq> Some 0"
  shows "\<exists>s'. put_spaces k s = (s', True) \<and> room s' = room s
            \<and> delivered s' = delivered s @ replicate k (CHR 0x20)"
  using assms
proof (induction k arbitrary: s)
  case 0
  then show ?case by simp
next
  case (Suc k)
  define s1 where "s1 = s\<lparr>delivered := delivered s @ [CHR 0x20], calls := Suc (calls s)\<rparr>"
  have sc: "sputc s (CHR 0x20) = (s1, True)"
    using Suc.prems by (simp add: sputc_never_refused s1_def)
  have r1: "\<forall>i. room s1 i \<noteq> Some 0" using Suc.prems by (simp add: s1_def)
  from Suc.IH [OF r1] obtain s' where
    s': "put_spaces k s1 = (s', True)" "room s' = room s1"
      "delivered s' = delivered s1 @ replicate k (CHR 0x20)" by blast
  have "put_spaces (Suc k) s = (s', True)" using sc s'(1) by simp
  moreover have "delivered s' = delivered s @ replicate (Suc k) (CHR 0x20)"
    using s'(3) by (simp add: s1_def)
  moreover have "room s' = room s" using s'(2) by (simp add: s1_def)
  ultimately show ?case by blast
qed

text \<open>
  The variant on the chaining buffer writes byte by byte. On two sinks that never refuse
  a single byte it consumes all its input, ends in the same filter state and delivers
  the same bytes.
\<close>

lemma filter_write_loop_never_refused:
  assumes "\<forall>i. room s i \<noteq> Some 0" and "\<forall>i. room t i \<noteq> Some 0"
  shows "\<exists>st' s' t' d. filter_write_loop st s buf idx = (st', s', idx + length buf)
           \<and> filter_write_loop st t buf idx = (st', t', idx + length buf)
           \<and> delivered s' = delivered s @ d \<and> delivered t' = delivered t @ d"
  using assms
proof (induction buf arbitrary: st s t idx)
  case Nil
  then show ?case by simp
next
  case (Cons c cs)
  consider (ind) "c = indent_code" | (und) "c \<noteq> indent_code" "c = undent_code"
    | (skip) "c \<noteq> indent_code" "c \<noteq> undent_code" "at_start_of_line st \<and> isspace c"
    | (emit) "c \<noteq> indent_code" "c \<noteq> undent_code" "\<not> (at_start_of_line st \<and> isspace c)"
    by blast
  then show ?case
  proof cases
    case ind
    from Cons.IH [OF Cons.prems, of "indent st" "Suc idx"] show ?thesis using ind by simp
  next
    case und
    from Cons.IH [OF Cons.prems, of "undent st" "Suc idx"] show ?thesis using und by simp
  next
    case skip
    from Cons.IH [OF Cons.prems, of st "Suc idx"] show ?thesis using skip by simp
  next
    case emit
    define k where "k = (if at_start_of_line st then unat (indent_level st * indent_increment st) else 0)"
    define st2 where "st2 = st\<lparr>at_start_of_line := (c = EndOfLine)\<rparr>"
    have step: "\<exists>u2. filter_write_loop st u (c # cs) idx = filter_write_loop st2 u2 cs (Suc idx)
              \<and> (\<forall>i. room u2 i \<noteq> Some 0)
              \<and> delivered u2 = delivered u @ replicate k (CHR 0x20) @ [c]"
      if u: "\<forall>i. room u i \<noteq> Some 0" for u
    proof -
      obtain u1 where u1: "(if at_start_of_line st
            then put_spaces (unat (indent_level st * indent_increment st)) u
            else (u, True)) = (u1, True)" "room u1 = room u"
          "delivered u1 = delivered u @ replicate k (CHR 0x20)"
      proof (cases "at_start_of_line st")
        case True
        from put_spaces_never_refused [OF u, of "unat (indent_level st * indent_increment st)"]
        obtain u1 where "put_spaces (unat (indent_level st * indent_increment st)) u = (u1, True)"
          "room u1 = room u"
          "delivered u1 = delivered u @ replicate (unat (indent_level st * indent_increment st)) (CHR 0x20)"
          by blast
        then show ?thesis using True that by (simp add: k_def)
      next
        case False
        then show ?thesis using that [of u] by (simp add: k_def)
      qed
      define u2 where "u2 = u1\<lparr>delivered := delivered u1 @ [c], calls := Suc (calls u1)\<rparr>"
      have r1: "\<forall>i. room u1 i \<noteq> Some 0" using u u1(2) by simp
      have sc: "sputc u1 c = (u2, True)" using r1 by (simp add: sputc_never_refused u2_def)
      have "filter_write_loop st u (c # cs) idx = filter_write_loop st2 u2 cs (Suc idx)"
        using filter_write_loop_emit [OF emit u1(1) sc, of cs idx] by (simp add: st2_def)
      moreover have "\<forall>i. room u2 i \<noteq> Some 0" using r1 by (simp add: u2_def)
      moreover have "delivered u2 = delivered u @ replicate k (CHR 0x20) @ [c]"
        using u1(3) by (simp add: u2_def)
      ultimately show ?thesis by blast
    qed
    from step [OF Cons.prems(1)] obtain s2 where
      s2: "filter_write_loop st s (c # cs) idx = filter_write_loop st2 s2 cs (Suc idx)"
        "\<forall>i. room s2 i \<noteq> Some 0" "delivered s2 = delivered s @ replicate k (CHR 0x20) @ [c]"
      by blast
    from step [OF Cons.prems(2)] obtain t2 where
      t2: "filter_write_loop st t (c # cs) idx = filter_write_loop st2 t2 cs (Suc idx)"
        "\<forall>i. room t2 i \<noteq> Some 0" "delivered t2 = delivered t @ replicate k (CHR 0x20) @ [c]"
      by blast
    from Cons.IH [OF s2(2) t2(2), of st2 "Suc idx"] obtain st' s' t' d where
      r: "filter_write_loop st2 s2 cs (Suc idx) = (st', s', Suc idx + length cs)"
         "filter_write_loop st2 t2 cs (Suc idx) = (st', t', Suc idx + length cs)"
         "delivered s' = delivered s2 @ d" "delivered t' = delivered t2 @ d"
      by blast
    have "delivered s' = delivered s @ (replicate k (CHR 0x20) @ [c] @ d)"
      using r(3) s2(3) by simp
    moreover have "delivered t' = delivered t @ (replicate k (CHR 0x20) @ [c] @ d)"
      using r(4) t2(3) by simp
    ultimately show ?thesis using s2(1) t2(1) r(1,2) by (simp del: filter_write_loop.simps)
  qed
qed

lemma filter_write_on_short_sink:
  assumes "0 < k"
  shows "\<exists>fs' s' t'. filter_write fs (accept_only k) buf = (fs', s', length buf)
           \<and> filter_write fs accept_all buf = (fs', t', length buf)
           \<and> delivered s' = delivered t'"
proof -
  have a: "\<forall>i. room (accept_only k) i \<noteq> Some 0" using assms by (simp add: accept_only_def)
  have b: "\<forall>i. room accept_all i \<noteq> Some 0" by (simp add: accept_all_def)
  from filter_write_loop_never_refused [OF a b, of fs buf 0] show ?thesis
    by (auto simp: filter_write_def accept_only_def accept_all_def)
qed

end
